theory Spec2Isabelle
  imports Complex_Main
begin

section \<open>The load balancer (src/unnamed/part_000, the module \<open>src/balancer\<close> of its tests)\<close>

text \<open>
  The balancer keeps one record per backend, ranks the records by a score computed from
  the recent statuses and latencies, picks two of the best untried records, sends the
  request to one of them, and retries idempotent requests on server errors.

  Conventions of the embedding.
  \<^item> A JavaScript number is an exact rational here (\<open>rat\<close>); counters that only ever
    hold natural numbers are \<open>nat\<close>, clock readings (epoch milliseconds) and status codes
    are \<open>int\<close>. Rounding errors of IEEE doubles and the value NaN are not modelled.
  \<^item> A JavaScript array that may have holes (\<open>Array<number>(10)\<close> has ten of them) is a
    list of options: \<open>None\<close> is a hole, \<open>Some v\<close> an element.
  \<^item> A backend object is identified by its position in the pool \<open>tracked\<close>; a reference
    to a backend is that index, an assignment to a field of the object replaces the
    record at the index. \<open>balancer\<close> creates one fresh object per position, so two
    positions never alias.
  \<^item> \<open>Set<Backend>\<close> is an insertion-ordered list without duplicates: \<open>add\<close> is
    \<open>List.insert\<close>, \<open>has\<close> is membership, \<open>size\<close> is \<open>length\<close>.
  \<^item> The constants imported from \<open>../balancer-config\<close> are not part of the sources at
    hand; they are the fields of a parameter \<open>cfg\<close>. A configuration has an expected
    latency other than 0: a division by 0 is \<open>Infinity\<close> or \<open>NaN\<close> in JavaScript and 0
    in HOL, and no statement below depends on one.
  \<^item> Line numbers are those of src/unnamed/part_000.
  \<^item> What the outside world contributes to one iteration of the dispatch loop (the
    random number, whether the call of the transport throws or returns a promise, how
    the promise settles, the clock readings) is a record \<open>event\<close>; a call of
    \<open>fetchBalancer\<close> receives one event per iteration.
  \<^item> An exception that leaves \<open>fetchBalancer\<close> (the promise of the \<open>async\<close> function
    is rejected) is a value \<open>Inl e\<close> of the result; the records keep what was written
    before it was thrown.
  \<^item> One call of \<open>fetchBalancer\<close> runs from beginning to end before the next one
    starts. The two halves of an attempt, before and after the \<open>await\<close> of line 87,
    are separate functions, so that attempts that overlap on one backend can be
    written down as well (section on the ring buffer).
\<close>

subsection \<open>Data\<close>

record config =
  LATENCY_DEVIATION_ALLOWED :: rat
  AVERAGE_LATENCY_EXPECTED :: rat
  HEALTH_SCORE_WEIGHT :: rat
  LATENCY_SCORE_WEIGHT :: rat
  LATENCY_SCORE_INSTABILITY_WEIGHT :: rat

record Response =
  status :: int
  body :: string

record Request =
  url :: string
  httpMethod :: string  \<comment> \<open>the field \<open>method\<close>\<close>

text \<open>\<open>RequestInfo\<close>: a request, or a string. \<open>new Request(req)\<close> at line 62 is given
  the string; \<open>Url u\<close> is a string the constructor accepts, \<open>BadUrl u\<close> one for which it
  throws a \<open>TypeError\<close>.\<close>

datatype RequestInfo = Url string | BadUrl string | Req Request

text \<open>The exceptions that can leave \<open>fetchBalancer\<close>: line 62 and line 76 are outside the
  \<open>try\<close> of lines 85 to 91.\<close>

datatype error = RequestTypeError | TransportThrew

text \<open>The interface \<open>Backend\<close>; the field \<open>score\<close> is called \<open>combinedScore\<close> here,
  \<open>proxy\<close> is the number of the transport function.\<close>

record Backend =
  proxy :: nat
  requestCount :: nat
  scoredRequestCount :: nat
  statuses :: "int option list"
  latencies :: "rat option list"
  lastError :: int
  healthScore :: rat
  latencyScore :: rat
  combinedScore :: rat
  errorCount :: nat

text \<open>How the promise returned by a transport settles.\<close>

datatype outcome = Resolves Response | Rejects

record event =
  random2 :: nat  \<comment> \<open>\<open>Math.floor(Math.random() * 2)\<close>\<close>
  throws :: "nat \<Rightarrow> bool"  \<comment> \<open>the call of transport \<open>p\<close> at line 76 throws, no promise is returned\<close>
  settle :: "nat \<Rightarrow> outcome"  \<comment> \<open>the promise of transport \<open>p\<close> in this iteration\<close>
  requestStart :: int  \<comment> \<open>\<open>new Date().getTime()\<close> before the await\<close>
  requestEnd :: int  \<comment> \<open>\<open>new Date().getTime()\<close> after the await\<close>
  nowRescore :: int  \<comment> \<open>\<open>Date.now()\<close> inside the \<open>score\<close> of line 79\<close>
  nowError :: int  \<comment> \<open>\<open>Date.now()\<close> of line 102\<close>
  nowScore :: int  \<comment> \<open>\<open>Date.now()\<close> inside the \<open>score\<close> of line 103\<close>

definition proxyError :: Response where
  "proxyError = \<lparr>status = 502, body = ''couldn't connect to origin''\<rparr>"

definition noBackendResponse :: Response where
  "noBackendResponse = \<lparr>status = 502, body = ''No backend available''\<rparr>"

subsection \<open>JavaScript values of the \<open>&&\<close>/\<open>||\<close> chain\<close>

datatype jsval = JBool bool | JNum rat

fun truthy :: "jsval \<Rightarrow> bool" where
  "truthy (JBool b) = b"
| "truthy (JNum x) = (x \<noteq> 0)"

definition js_and :: "jsval \<Rightarrow> jsval \<Rightarrow> jsval" where
  "js_and a b = (if truthy a then b else a)"

definition js_or :: "jsval \<Rightarrow> jsval \<Rightarrow> jsval" where
  "js_or a b = (if truthy a then a else b)"

fun toNumber :: "jsval \<Rightarrow> rat" where
  "toNumber (JBool b) = (if b then 1 else 0)"
| "toNumber (JNum x) = x"

text \<open>\<open>parseFloat(x.toFixed(2))\<close>: the multiple of 1/100 nearest to \<open>x\<close>, the larger one of
  two; \<open>toFixed\<close> rounds the absolute value of a negative number and puts the sign back.\<close>

definition toFixed2 :: "rat \<Rightarrow> rat" where
  "toFixed2 x = (if x < 0 then - (of_int \<lfloor>(- x) * 100 + 1 / 2\<rfloor> / 100)
                 else of_int \<lfloor>x * 100 + 1 / 2\<rfloor> / 100)"

subsection \<open>The scorer\<close>

text \<open>Lines 143 to 148: the chain is parsed as \<open>((((a || b) || c) || d) || e) || 0\<close>.\<close>

definition timeWeight :: "int \<Rightarrow> int \<Rightarrow> jsval" where
  "timeWeight lastErr timeSinceError =
     js_or (js_or (js_or (js_or (js_or
       (js_and (JBool (lastErr = 0)) (JNum 0))
       (js_and (JBool (timeSinceError < 1000)) (JNum 1)))
       (js_and (JBool (timeSinceError < 3000)) (JNum (8 / 10))))
       (js_and (JBool (timeSinceError < 5000)) (JNum (3 / 10))))
       (js_and (JBool (timeSinceError < 10000)) (JNum (1 / 10))))
       (JNum 0)"

text \<open>The elements of an array, holes left out: what \<open>filter\<close> and \<open>reduce\<close> visit.\<close>

fun present :: "'a option list \<Rightarrow> 'a list" where
  "present [] = []"
| "present (None # xs) = present xs"
| "present (Some v # xs) = v # present xs"

text \<open>Line 149: \<open>latencies.filter(l => !!l).length\<close>.\<close>

definition measuresTaken :: "rat option list \<Rightarrow> nat" where
  "measuresTaken ls = length (filter (\<lambda>l. l \<noteq> 0) (present ls))"

text \<open>Lines 152 to 155: the \<open>reduce\<close> over the statuses.\<close>

definition isServerError :: "int \<Rightarrow> bool" where
  "isServerError s = (s \<noteq> 0 \<and> s \<ge> 500 \<and> s < 600)"

definition countErrors :: "int option list \<Rightarrow> nat" where
  "countErrors sts = foldl (\<lambda>acc s. if isServerError s then acc + 1 else acc) 0 (present sts)"

text \<open>Lines 163 to 167: \<open>Array.prototype.sort\<close> with an ascending comparison sorts the
  array in place and returns the same array; the elements come first, in order, the
  holes last.\<close>

definition sortLatencies :: "rat option list \<Rightarrow> rat option list" where
  "sortLatencies ls =
     map Some (sort (present ls)) @ replicate (length ls - length (present ls)) None"

text \<open>Lines 169 to 176: one step of the \<open>reduce\<close> that smooths the average and counts
  the samples beyond the allowed deviation.\<close>

definition averageStep :: "config \<Rightarrow> rat \<times> nat \<Rightarrow> rat \<Rightarrow> rat \<times> nat" where
  "averageStep cfg st l =
     (case st of (acc, beyond) \<Rightarrow>
        if \<bar>acc - l\<bar> < LATENCY_DEVIATION_ALLOWED cfg then ((acc + l) / 2, beyond)
        else (acc, beyond + 1))"

text \<open>Line 156.\<close>

definition healthOf :: "rat \<Rightarrow> nat \<Rightarrow> nat \<Rightarrow> rat" where
  "healthOf tw errors m = toFixed2 (1 - tw * (of_nat errors / of_nat m))"

text \<open>Lines 158 to 198. The element read at line 168 is never a hole when
  \<open>2 \<le> m\<close> (lemma \<open>middle_is_element\<close>); the branch for a hole is there to keep
  the function total.\<close>

definition latencyOf :: "config \<Rightarrow> rat \<Rightarrow> nat \<Rightarrow> rat option list \<Rightarrow> rat" where
  "latencyOf cfg tw m sortedLatencies =
     (let pingWeight = 1 - LATENCY_SCORE_INSTABILITY_WEIGHT cfg;
          middleLatency = (case sortedLatencies ! (m div 2) of Some v \<Rightarrow> v | None \<Rightarrow> 0);
          folded = foldl (averageStep cfg) (middleLatency, 0) (present sortedLatencies);
          averageLatency = fst folded;
          beyondAllowedLatencyDeviation = snd folded;
          correctedLatencyDeviationCount = (if m > 3 then beyondAllowedLatencyDeviation else 0);
          instabilityScore = 1 - of_nat correctedLatencyDeviationCount / of_nat m;
          latencyDiscrepancy = averageLatency / AVERAGE_LATENCY_EXPECTED cfg;
          pingScore = (if latencyDiscrepancy \<le> 1 then 1
                       else AVERAGE_LATENCY_EXPECTED cfg / averageLatency);
          rawLatencyScore = toFixed2 (pingScore * pingWeight
                       + instabilityScore * LATENCY_SCORE_INSTABILITY_WEIGHT cfg)
      in toFixed2 (1 - tw * rawLatencyScore))"

text \<open>\<open>score(backend, errorBasis?)\<close>: the result triple and the record after the call.
  \<open>clock\<close> is what \<open>Date.now()\<close> returns when \<open>errorBasis\<close> is not given.\<close>

definition score :: "config \<Rightarrow> Backend \<Rightarrow> int option \<Rightarrow> int \<Rightarrow> (rat \<times> rat \<times> rat) \<times> Backend" where
  "score cfg backend errorBasis clock =
     (let basis = (case errorBasis of None \<Rightarrow> clock | Some e \<Rightarrow> e);
          timeSinceError = basis - lastError backend;
          tw = toNumber (timeWeight (lastError backend) timeSinceError);
          m = measuresTaken (latencies backend)
      in if m < 2 then ((0, 0, 0), backend)
         else
           let errors = countErrors (statuses backend);
               hs = healthOf tw errors m;
               sortedLatencies = sortLatencies (latencies backend);
               ls = latencyOf cfg tw m sortedLatencies;
               sc = hs * HEALTH_SCORE_WEIGHT cfg + ls * LATENCY_SCORE_WEIGHT cfg
           in ((hs, ls, sc),
               backend\<lparr>latencies := sortedLatencies,
                        scoredRequestCount := requestCount backend,
                        healthScore := hs,
                        latencyScore := ls,
                        combinedScore := sc\<rparr>))"

subsection \<open>The selector\<close>

text \<open>\<open>bestBackend\<close> on two references into the pool.\<close>

definition bestBackend :: "Backend list \<Rightarrow> nat \<Rightarrow> nat \<Rightarrow> nat" where
  "bestBackend backends b1 b2 =
     (if combinedScore (backends ! b1) > combinedScore (backends ! b2)
         \<or> (combinedScore (backends ! b1) = combinedScore (backends ! b2)
            \<and> requestCount (backends ! b1) < requestCount (backends ! b2))
      then b1 else b2)"

text \<open>The body of the \<open>for\<close> loop of \<open>chooseBackends\<close> at index \<open>i\<close>, on the variables
  \<open>(b1, b2)\<close>.\<close>

definition chooseStep :: "Backend list \<Rightarrow> nat list \<Rightarrow> nat option \<times> nat option \<Rightarrow> nat
    \<Rightarrow> nat option \<times> nat option" where
  "chooseStep backends attempted st i =
     (case st of (b1, b2) \<Rightarrow>
        if i \<in> set attempted then (b1, b2)
        else (case b1 of
                None \<Rightarrow> (Some i, b2)
              | Some old1 \<Rightarrow>
                  (case b2 of
                     None \<Rightarrow> (b1, Some i)
                   | Some old2 \<Rightarrow>
                       (let new1 = bestBackend backends i old1
                        in if old1 \<noteq> new1
                           then (Some new1, Some (bestBackend backends old1 old2))
                           else (Some new1, Some (bestBackend backends i old2))))))"

text \<open>\<open>chooseBackends(backends, attempted)\<close>; a call without \<open>attempted\<close> is a call with
  the empty set.\<close>

definition chooseBackends :: "Backend list \<Rightarrow> nat list \<Rightarrow> nat option \<times> nat option" where
  "chooseBackends backends attempted =
     foldl (chooseStep backends attempted) (None, None) [0..<length backends]"

text \<open>The order the selector ranks by: \<open>beats backends i j\<close> is the condition under
  which \<open>bestBackend\<close> prefers its first argument.\<close>

definition beats :: "Backend list \<Rightarrow> nat \<Rightarrow> nat \<Rightarrow> bool" where
  "beats backends i j =
     (combinedScore (backends ! i) > combinedScore (backends ! j)
      \<or> (combinedScore (backends ! i) = combinedScore (backends ! j)
          \<and> requestCount (backends ! i) < requestCount (backends ! j)))"

text \<open>The references a selection may return: the positions of the pool that are not in
  the attempted set.\<close>

definition untried :: "Backend list \<Rightarrow> nat list \<Rightarrow> nat set" where
  "untried backends attempted = {i. i < length backends \<and> i \<notin> set attempted}"

subsection \<open>The dispatcher\<close>

text \<open>Lines 41 to 58: one fresh record per transport. The test \<open>typeof h !== "function"\<close>
  rejects what the type \<open>FetchFn[]\<close> already excludes.\<close>

definition newBackend :: "nat \<Rightarrow> Backend" where
  "newBackend h =
     \<lparr>proxy = h, requestCount = 0, scoredRequestCount = 0,
      statuses = replicate 10 None, latencies = replicate 10 None,
      lastError = 0, healthScore = 1, latencyScore = 1, combinedScore = 1,
      errorCount = 0\<rparr>"

definition balancer :: "nat list \<Rightarrow> Backend list" where
  "balancer backends = map newBackend backends"

text \<open>Lines 61 to 63: a string becomes a request, whose method is \<open>GET\<close>, or the
  constructor throws.\<close>

fun toRequest :: "RequestInfo \<Rightarrow> error + Request" where
  "toRequest (Url u) = Inr \<lparr>url = u, httpMethod = ''GET''\<rparr>"
| "toRequest (BadUrl u) = Inl RequestTypeError"
| "toRequest (Req r) = Inr r"

definition canRetry :: "Request \<Rightarrow> Response \<Rightarrow> bool" where
  "canRetry req resp =
     (if status resp < 500 then False
      else if httpMethod req = ''GET'' \<or> httpMethod req = ''HEAD'' then True
      else False)"

text \<open>Lines 83 to 91: the \<open>await\<close> inside \<open>try\<close>. A rejected promise leaves \<open>latency\<close> at 0
  and makes \<open>resp\<close> the constant \<open>proxyError\<close>.\<close>

definition awaitResponse :: "event \<Rightarrow> nat \<Rightarrow> Response \<times> rat" where
  "awaitResponse ev p =
     (case settle ev p of
        Resolves r \<Rightarrow> (r, of_int (requestEnd ev - requestStart ev))
      | Rejects \<Rightarrow> (proxyError, 0))"

text \<open>Lines 93 to 99, after \<open>requestCount\<close> was incremented. In the second branch
  \<open>statuses\<close> has at least 10 elements, so its index is inside the array; the index
  into \<open>latencies\<close> is inside the array unless \<open>latencies\<close> is empty, where
  JavaScript computes the index \<open>NaN\<close> and stores no element, and the update of the
  empty list changes nothing either.\<close>

definition writeBuffers :: "Backend \<Rightarrow> int \<Rightarrow> rat \<Rightarrow> Backend" where
  "writeBuffers backend st latency =
     (if length (statuses backend) < 10
      then backend\<lparr>statuses := statuses backend @ [Some st],
                    latencies := latencies backend @ [Some latency]\<rparr>
      else backend\<lparr>statuses := (statuses backend)
                       [(requestCount backend - 1) mod length (statuses backend) := Some st],
                    latencies := (latencies backend)
                       [(requestCount backend - 1) mod length (latencies backend) := Some latency]\<rparr>)"

text \<open>Lines 79 and 80, once the transport has returned its promise: the record is
  scored again if it changed since its last score, and the attempt is counted.\<close>

definition startAttempt :: "config \<Rightarrow> event \<Rightarrow> Backend \<Rightarrow> Backend" where
  "startAttempt cfg ev backend =
     (let rescored = (if scoredRequestCount backend \<noteq> requestCount backend
                      then snd (score cfg backend None (nowRescore ev)) else backend)
      in rescored\<lparr>requestCount := requestCount rescored + 1\<rparr>)"

text \<open>Lines 83 to 103, after the \<open>await\<close>: the response and the latency are written
  at the index computed from the \<open>requestCount\<close> the record has now, and a server error
  sets \<open>lastError\<close> and scores the record. The result is the response and the record.\<close>

definition finishAttempt :: "config \<Rightarrow> event \<Rightarrow> Backend \<Rightarrow> Response \<times> Backend" where
  "finishAttempt cfg ev backend =
     (let settled = awaitResponse ev (proxy backend);
          resp = fst settled;
          written = writeBuffers backend (status resp) (snd settled)
      in if status resp \<ge> 500 \<and> status resp < 600
         then (resp, snd (score cfg (written\<lparr>lastError := nowError ev\<rparr>) None (nowScore ev)))
         else (resp, written))"

text \<open>Lines 79 to 103 on the chosen backend when nothing else touches the record
  between the two halves: what one iteration of the loop does to the record, and the
  response it obtains.\<close>

definition attempt :: "config \<Rightarrow> event \<Rightarrow> Backend \<Rightarrow> Response \<times> Backend" where
  "attempt cfg ev backend = finishAttempt cfg ev (startAttempt cfg ev backend)"

text \<open>Lines 72 to 74.\<close>

definition pick :: "event \<Rightarrow> nat \<Rightarrow> nat option \<Rightarrow> nat" where
  "pick ev backendA backendB =
     (case backendB of None \<Rightarrow> backendA
      | Some b \<Rightarrow> if random2 ev = 0 then backendA else b)"

subsection \<open>The order of the selector\<close>

lemma bestBackend_beats: "bestBackend bs i j = (if beats bs i j then i else j)"
  by (simp add: bestBackend_def beats_def)

lemma beats_asym: "beats bs i j \<Longrightarrow> \<not> beats bs j i"
  by (auto simp: beats_def)

lemma beats_trans: "beats bs i j \<Longrightarrow> beats bs j k \<Longrightarrow> beats bs i k"
  by (auto simp: beats_def)

lemma beats_irrefl: "\<not> beats bs i i"
  by (simp add: beats_def)

lemma beats_negtrans: "\<not> beats bs i j \<Longrightarrow> \<not> beats bs j k \<Longrightarrow> \<not> beats bs i k"
  by (auto simp: beats_def)

subsection \<open>The selection scans the pool with the two best untried references\<close>

text \<open>\<open>scanned backends attempted k\<close> is the pair \<open>(b1, b2)\<close> after the \<open>for\<close> loop has
  visited the indices below \<open>k\<close>; \<open>topTwo\<close> is the loop invariant.\<close>

definition scanned :: "Backend list \<Rightarrow> nat list \<Rightarrow> nat \<Rightarrow> nat option \<times> nat option" where
  "scanned bs att k = foldl (chooseStep bs att) (None, None) [0..<k]"

lemma scanned_0: "scanned bs att 0 = (None, None)"
  by (simp add: scanned_def)

lemma scanned_Suc: "scanned bs att (Suc k) = chooseStep bs att (scanned bs att k) k"
  by (simp add: scanned_def)

definition topTwo :: "Backend list \<Rightarrow> nat list \<Rightarrow> nat \<Rightarrow> nat option \<times> nat option \<Rightarrow> bool" where
  "topTwo bs att k st =
     (case st of
        (None, b2) \<Rightarrow> b2 = None \<and> (\<forall>j<k. j \<in> set att)
      | (Some x, None) \<Rightarrow> x < k \<and> x \<notin> set att \<and> (\<forall>j<k. j \<notin> set att \<longrightarrow> j = x)
      | (Some x, Some y) \<Rightarrow> x < k \<and> x \<notin> set att \<and> y < k \<and> y \<notin> set att \<and> x \<noteq> y
           \<and> (\<forall>j<k. j \<notin> set att \<longrightarrow> j \<noteq> x \<longrightarrow> j \<noteq> y \<longrightarrow> \<not> beats bs j x \<and> \<not> beats bs j y))"

lemma topTwo_step:
  assumes "topTwo bs att k st"
  shows "topTwo bs att (Suc k) (chooseStep bs att st k)"
proof (cases st)
  case (Pair b1 b2)
  show ?thesis
  proof (cases "k \<in> set att")
    case True
    with assms Pair show ?thesis
      by (auto simp: topTwo_def chooseStep_def less_Suc_eq split: option.splits)
  next
    case False
    show ?thesis
    proof (cases b1)
      case None
      with assms Pair False show ?thesis
        by (auto simp: topTwo_def chooseStep_def less_Suc_eq split: option.splits)
    next
      case (Some x)
      note b1 = this
      show ?thesis
      proof (cases b2)
        case None
        with assms Pair False b1 show ?thesis
          by (auto simp: topTwo_def chooseStep_def less_Suc_eq split: option.splits)
      next
        case (Some y)
        from assms Pair b1 Some have inv: "x < k" "x \<notin> set att" "y < k" "y \<notin> set att" "x \<noteq> y"
          "\<And>j. j < k \<Longrightarrow> j \<notin> set att \<Longrightarrow> j \<noteq> x \<Longrightarrow> j \<noteq> y \<Longrightarrow> \<not> beats bs j x \<and> \<not> beats bs j y"
          by (auto simp: topTwo_def)
        show ?thesis
        proof (cases "beats bs k x")
          case True
          then have st': "chooseStep bs att st k = (Some k, Some (if beats bs x y then x else y))"
            using Pair b1 Some False inv(1) by (simp add: chooseStep_def bestBackend_beats Let_def)
          show ?thesis
          proof (cases "beats bs x y")
            case xy: True
            have "\<not> beats bs j k \<and> \<not> beats bs j x" if "j < Suc k" "j \<notin> set att" "j \<noteq> k" "j \<noteq> x" for j
            proof (cases "j = y")
              case True
              then show ?thesis using xy \<open>beats bs k x\<close> beats_asym beats_trans by blast
            next
              case False
              then have "\<not> beats bs j x" using inv(6)[of j] that by simp
              moreover have "\<not> beats bs j k" using calculation \<open>beats bs k x\<close> beats_trans by blast
              ultimately show ?thesis by simp
            qed
            then show ?thesis using st' xy inv False by (auto simp: topTwo_def)
          next
            case xy: False
            have "\<not> beats bs j k \<and> \<not> beats bs j y" if "j < Suc k" "j \<notin> set att" "j \<noteq> k" "j \<noteq> y" for j
            proof (cases "j = x")
              case True
              then show ?thesis using xy \<open>beats bs k x\<close> beats_asym by blast
            next
              case False
              then have "\<not> beats bs j x" "\<not> beats bs j y" using inv(6)[of j] that by simp_all
              moreover have "\<not> beats bs j k" using calculation \<open>beats bs k x\<close> beats_trans by blast
              ultimately show ?thesis by simp
            qed
            then show ?thesis using st' xy inv False by (auto simp: topTwo_def)
          qed
        next
          case kx: False
          then have st': "chooseStep bs att st k = (Some x, Some (if beats bs k y then k else y))"
            using Pair b1 Some False by (simp add: chooseStep_def bestBackend_beats Let_def)
          show ?thesis
          proof (cases "beats bs k y")
            case ky: True
            have "\<not> beats bs j x \<and> \<not> beats bs j k" if "j < Suc k" "j \<notin> set att" "j \<noteq> x" "j \<noteq> k" for j
            proof (cases "j = y")
              case True
              have "\<not> beats bs y x" using kx ky beats_trans by blast
              then show ?thesis using True ky beats_asym by blast
            next
              case False
              then have "\<not> beats bs j x" "\<not> beats bs j y" using inv(6)[of j] that by simp_all
              moreover have "\<not> beats bs j k" using calculation ky beats_trans by blast
              ultimately show ?thesis by simp
            qed
            then show ?thesis using st' ky inv False by (auto simp: topTwo_def)
          next
            case ky: False
            have "\<not> beats bs j x \<and> \<not> beats bs j y" if "j < Suc k" "j \<notin> set att" "j \<noteq> x" "j \<noteq> y" for j
            proof (cases "j = k")
              case True
              then show ?thesis using kx ky by simp
            next
              case False
              then show ?thesis using inv(6)[of j] that by simp
            qed
            then show ?thesis using st' ky inv False by (auto simp: topTwo_def)
          qed
        qed
      qed
    qed
  qed
qed

lemma topTwo_scanned: "topTwo bs att k (scanned bs att k)"
proof (induction k)
  case 0
  show ?case by (simp add: scanned_0 topTwo_def)
next
  case (Suc k)
  then show ?case by (simp add: scanned_Suc topTwo_step)
qed

lemma chooseBackends_scanned: "chooseBackends bs att = scanned bs att (length bs)"
  by (simp add: chooseBackends_def scanned_def)

lemma topTwo_chooseBackends: "topTwo bs att (length bs) (chooseBackends bs att)"
  by (simp add: chooseBackends_scanned topTwo_scanned)

lemma chooseBackends_first_untried:
  assumes "chooseBackends bs att = (Some a, b2)"
  shows "a < length bs \<and> a \<notin> set att"
  using topTwo_chooseBackends[of bs att] assms by (auto simp: topTwo_def split: option.splits)

lemma chooseBackends_second_untried:
  assumes "chooseBackends bs att = (b1, Some b)"
  shows "b < length bs \<and> b \<notin> set att"
  using topTwo_chooseBackends[of bs att] assms by (auto simp: topTwo_def split: option.splits)

lemma pick_untried:
  assumes "chooseBackends bs att = (Some a, b2)"
  shows "pick ev a b2 < length bs \<and> pick ev a b2 \<notin> set att"
  using chooseBackends_first_untried[OF assms] chooseBackends_second_untried[of bs att "Some a"] assms
  by (auto simp: pick_def split: option.splits)

lemma insert_pick_decreases:
  assumes "chooseBackends tracked attempted = (Some a, b)" and "length attempted < length tracked"
  shows "length tracked - length (List.insert (pick ev a b) attempted)
           < length tracked - length attempted"
  using pick_untried[OF assms(1), of ev] assms(2) by simp

subsection \<open>The dispatch loop\<close>

text \<open>Lines 64 to 110: the \<open>while\<close> loop on the variables \<open>attempted\<close> and \<open>tracked\<close>;
  \<open>k\<close> counts the iterations, \<open>env k\<close> is what the world does in iteration \<open>k\<close>.
  The call \<open>backend.proxy(req, init)\<close> of line 76 stands before the \<open>try\<close>: when it
  throws, the exception leaves the function and nothing of the iteration has been
  written. Every other iteration adds an untried reference to \<open>attempted\<close>, which is
  why the loop ends.\<close>

function fetchLoop :: "config \<Rightarrow> Request \<Rightarrow> (nat \<Rightarrow> event) \<Rightarrow> nat \<Rightarrow> nat list \<Rightarrow> Backend list
    \<Rightarrow> (error + Response) \<times> Backend list" where
  "fetchLoop cfg req env k attempted tracked =
     (if length attempted < length tracked
      then (case chooseBackends tracked attempted of
              (None, backendB) \<Rightarrow> (Inr noBackendResponse, tracked)
            | (Some backendA, backendB) \<Rightarrow>
                (let backend = pick (env k) backendA backendB
                 in if throws (env k) (proxy (tracked ! backend))
                    then (Inl TransportThrew, tracked)
                    else
                      (let done = attempt cfg (env k) (tracked ! backend);
                           resp = fst done;
                           tracked' = tracked[backend := snd done];
                           attempted' = List.insert backend attempted
                       in if status resp \<ge> 500 \<and> status resp < 600 \<and> canRetry req resp
                          then fetchLoop cfg req env (Suc k) attempted' tracked'
                          else (Inr resp, tracked'))))
      else (Inr proxyError, tracked))"
  by pat_completeness auto
termination
  by (relation "measure (\<lambda>(cfg, req, env, k, attempted, tracked). length tracked - length attempted)")
    (auto dest!: sym[of _ "chooseBackends _ _"] intro: insert_pick_decreases)

text \<open>Lines 60 to 111: \<open>fetchBalancer(req, init)\<close>, the result and the pool after the call.\<close>

definition fetchBalancer :: "config \<Rightarrow> Backend list \<Rightarrow> RequestInfo \<Rightarrow> (nat \<Rightarrow> event)
    \<Rightarrow> (error + Response) \<times> Backend list" where
  "fetchBalancer cfg tracked req env =
     (case toRequest req of
        Inl e \<Rightarrow> (Inl e, tracked)
      | Inr request \<Rightarrow> fetchLoop cfg request env 0 [] tracked)"

section \<open>The selector returns the two best untried backends\<close>

lemma untried_finite: "finite (untried bs att)"
  by (simp add: untried_def)

lemma card_two_untried:
  assumes "x \<in> untried bs att" "y \<in> untried bs att" "x \<noteq> y"
  shows "2 \<le> card (untried bs att)"
proof -
  have "{x, y} \<subseteq> untried bs att" using assms by simp
  then have "card {x, y} \<le> card (untried bs att)"
    by (rule card_mono[OF untried_finite])
  then show ?thesis using assms(3) by simp
qed

text \<open>A pool for examples: a fresh record with a given combined score and request count.\<close>

definition mkBackend :: "rat \<Rightarrow> nat \<Rightarrow> Backend" where
  "mkBackend s n = (newBackend 0)\<lparr>requestCount := n, combinedScore := s\<rparr>"

definition samplePool :: "Backend list" where
  "samplePool = [mkBackend (1 / 2) 0, mkBackend 1 3, mkBackend 1 1, mkBackend 2 0, mkBackend 1 5]"

text \<open>
  Claim C1. For every pool and every attempted set, \<open>chooseBackends\<close> returns the two
  best untried records. The references it returns are untried (so a record of the
  attempted set is never returned); they are as many as there are untried records, up
  to two, and distinct; the second is absent whenever the first is; and no untried
  record that was left out beats a returned one, where to beat is to have the higher
  combined score, or the same score and the lower request count. The order of the two
  inside the pair is not constrained.
\<close>

theorem chooseBackends_two_best:
  "case chooseBackends backends attempted of
     (b1, b2) \<Rightarrow>
        set_option b1 \<union> set_option b2 \<subseteq> untried backends attempted
      \<and> card (set_option b1 \<union> set_option b2) = min 2 (card (untried backends attempted))
      \<and> (b1 = None \<longrightarrow> b2 = None)
      \<and> (\<forall>j \<in> untried backends attempted - (set_option b1 \<union> set_option b2).
            \<forall>r \<in> set_option b1 \<union> set_option b2. \<not> beats backends j r)"
proof (cases "chooseBackends backends attempted")
  case (Pair b1 b2)
  have inv: "topTwo backends attempted (length backends) (b1, b2)"
    using topTwo_chooseBackends[of backends attempted] Pair by simp
  show ?thesis
  proof (cases b1)
    case None
    with inv have "b2 = None" and "untried backends attempted = {}"
      by (auto simp: topTwo_def untried_def)
    with None Pair show ?thesis by simp
  next
    case (Some x)
    note b1 = this
    show ?thesis
    proof (cases b2)
      case None
      with inv b1 have "untried backends attempted = {x}"
        by (auto simp: topTwo_def untried_def)
      with None b1 Pair show ?thesis by simp
    next
      case (Some y)
      from inv b1 Some have mem: "x \<in> untried backends attempted" "y \<in> untried backends attempted" "x \<noteq> y"
        and best: "\<And>j. j \<in> untried backends attempted \<Longrightarrow> j \<noteq> x \<Longrightarrow> j \<noteq> y
                     \<Longrightarrow> \<not> beats backends j x \<and> \<not> beats backends j y"
        by (auto simp: topTwo_def untried_def)
      have "card {x, y} = min 2 (card (untried backends attempted))"
        using card_two_untried[OF mem] mem(3) by simp
      with mem best b1 Some Pair show ?thesis by auto
    qed
  qed
qed

lemma samplePool_choice: "chooseBackends samplePool [3] = (Some 2, Some 1)"
  by code_simp

lemma samplePool_all_attempted: "fst (chooseBackends samplePool [0, 1, 2, 3, 4]) = None"
  by code_simp

text \<open>In the sample pool record 3 has the highest score and was attempted; of the three
  records of score 1 the two with the fewest requests are returned. When every record
  was attempted, both results are absent.\<close>

theorem chooseBackends_two_best_witness:
  "chooseBackends samplePool [3] = (Some 2, Some 1)
   \<and> 4 \<in> untried samplePool [3] \<and> 3 \<notin> untried samplePool [3]
   \<and> \<not> beats samplePool 4 2 \<and> \<not> beats samplePool 4 1
   \<and> \<not> beats samplePool 0 2 \<and> \<not> beats samplePool 0 1
   \<and> chooseBackends samplePool [0, 1, 2, 3, 4] = (None, None)"
proof -
  have u: "4 \<in> untried samplePool [3] - {2, 1}" "0 \<in> untried samplePool [3] - {2, 1}"
    "3 \<notin> untried samplePool [3]"
    by (simp_all add: untried_def samplePool_def)
  from chooseBackends_two_best[of samplePool "[3]"] samplePool_choice
  have "\<forall>j \<in> untried samplePool [3] - {2, 1}. \<forall>r \<in> {2, 1}. \<not> beats samplePool j r"
    by simp
  with u have best: "\<not> beats samplePool 4 2 \<and> \<not> beats samplePool 4 1
      \<and> \<not> beats samplePool 0 2 \<and> \<not> beats samplePool 0 1"
    by blast
  from chooseBackends_two_best[of samplePool "[0, 1, 2, 3, 4]"] samplePool_all_attempted
  have "chooseBackends samplePool [0, 1, 2, 3, 4] = (None, None)"
    by (cases "chooseBackends samplePool [0, 1, 2, 3, 4]") simp
  with u best samplePool_choice show ?thesis by blast
qed

section \<open>Facts about the scorer\<close>

lemma timeWeight_steps:
  "toNumber (timeWeight le t) =
     (if t < 1000 then 1 else if t < 3000 then 8 / 10 else if t < 5000 then 3 / 10
      else if t < 10000 then 1 / 10 else 0)"
  by (simp add: timeWeight_def js_or_def js_and_def)

lemma timeWeight_range: "0 \<le> toNumber (timeWeight le t) \<and> toNumber (timeWeight le t) \<le> 1"
  by (simp add: timeWeight_steps)

lemma timeWeight_antimono: "t1 \<le> t2 \<Longrightarrow> toNumber (timeWeight le t2) \<le> toNumber (timeWeight le t1)"
  by (simp add: timeWeight_steps)

lemma toFixed2_mono: "x \<le> y \<Longrightarrow> toFixed2 x \<le> toFixed2 y"
proof -
  assume xy: "x \<le> y"
  have pos: "0 \<le> of_int \<lfloor>z * 100 + 1 / 2\<rfloor> / (100::rat)" if "0 \<le> z" for z :: rat
  proof -
    have "0 \<le> z * 100 + 1 / 2" using that by simp
    then have "0 \<le> \<lfloor>z * 100 + 1 / 2\<rfloor>" by simp
    then show ?thesis by simp
  qed
  show ?thesis
  proof (cases "y < 0")
    case True
    then have "x < 0" using xy by simp
    have "(- y) * 100 + 1 / 2 \<le> (- x) * 100 + 1 / 2" using xy by simp
    then have "\<lfloor>(- y) * 100 + 1 / 2\<rfloor> \<le> \<lfloor>(- x) * 100 + 1 / 2\<rfloor>" by (rule floor_mono)
    then have "(of_int \<lfloor>(- y) * 100 + 1 / 2\<rfloor> :: rat) \<le> of_int \<lfloor>(- x) * 100 + 1 / 2\<rfloor>" by simp
    then show ?thesis using True \<open>x < 0\<close> by (simp add: toFixed2_def divide_right_mono)
  next
    case False
    then have y0: "0 \<le> y" by simp
    show ?thesis
    proof (cases "x < 0")
      case True
      have "0 \<le> - x" using True by simp
      from pos[OF this] have "toFixed2 x \<le> 0" using True by (simp add: toFixed2_def)
      moreover have "0 \<le> toFixed2 y" using pos[OF y0] False by (simp add: toFixed2_def)
      ultimately show ?thesis by simp
    next
      case xf: False
      have "x * 100 + 1 / 2 \<le> y * 100 + 1 / 2" using xy by simp
      then have "\<lfloor>x * 100 + 1 / 2\<rfloor> \<le> \<lfloor>y * 100 + 1 / 2\<rfloor>" by (rule floor_mono)
      then have "(of_int \<lfloor>x * 100 + 1 / 2\<rfloor> :: rat) \<le> of_int \<lfloor>y * 100 + 1 / 2\<rfloor>" by simp
      then show ?thesis using False xf by (simp add: toFixed2_def divide_right_mono)
    qed
  qed
qed

lemma toFixed2_0: "toFixed2 0 = 0"
proof -
  have "\<lfloor>(1::rat) / 2\<rfloor> = 0" by (simp add: floor_eq_iff)
  then show ?thesis by (simp add: toFixed2_def)
qed

lemma toFixed2_1: "toFixed2 1 = 1"
proof -
  have "\<lfloor>(100::rat) + 1 / 2\<rfloor> = 100" by (simp add: floor_eq_iff)
  then show ?thesis by (simp add: toFixed2_def)
qed

lemma toFixed2_unit: "0 \<le> x \<Longrightarrow> x \<le> 1 \<Longrightarrow> 0 \<le> toFixed2 x \<and> toFixed2 x \<le> 1"
  using toFixed2_mono[of 0 x] toFixed2_mono[of x 1] by (simp add: toFixed2_0 toFixed2_1)

lemma toFixed2_le_1: "x \<le> 1 \<Longrightarrow> toFixed2 x \<le> 1"
  using toFixed2_mono[of x 1] by (simp add: toFixed2_1)



lemma healthOf_mono:
  assumes "w2 \<le> w1"
  shows "healthOf w1 e m \<le> healthOf w2 e m"
proof -
  have "0 \<le> (of_nat e / of_nat m :: rat)" by simp
  then have "w2 * (of_nat e / of_nat m) \<le> w1 * (of_nat e / of_nat m)"
    using assms by (rule mult_right_mono[rotated])
  then show ?thesis unfolding healthOf_def by (intro toFixed2_mono) simp
qed

lemma healthOf_zero_weight: "healthOf 0 e m = 1"
  by (simp add: healthOf_def toFixed2_1)

lemma healthOf_le_1: "0 \<le> w \<Longrightarrow> healthOf w e m \<le> 1"
  unfolding healthOf_def by (intro toFixed2_le_1) simp

lemma healthOf_unit:
  assumes "0 \<le> w" "w \<le> 1" "e \<le> m"
  shows "0 \<le> healthOf w e m \<and> healthOf w e m \<le> 1"
proof -
  have r: "0 \<le> (of_nat e / of_nat m :: rat)" "(of_nat e / of_nat m :: rat) \<le> 1"
    using assms(3) by (auto simp: divide_le_eq_1)
  have "w * (of_nat e / of_nat m) \<le> 1 * 1"
    using assms r by (intro mult_mono) simp_all
  moreover have "0 \<le> w * (of_nat e / of_nat m)" using assms(1) r(1) by simp
  ultimately show ?thesis unfolding healthOf_def by (intro toFixed2_unit) simp_all
qed

lemma score_health:
  "fst (fst (score cfg b eb clock)) =
     (if measuresTaken (latencies b) < 2 then 0
      else healthOf (toNumber (timeWeight (lastError b)
              ((case eb of None \<Rightarrow> clock | Some e \<Rightarrow> e) - lastError b)))
             (countErrors (statuses b)) (measuresTaken (latencies b)))"
  by (simp add: score_def Let_def)

lemma present_append: "present (xs @ ys) = present xs @ present ys"
  by (induction xs rule: present.induct) simp_all

lemma present_map_Some: "present (map Some xs) = xs"
  by (induction xs) simp_all

lemma present_replicate_None: "present (replicate k None) = []"
  by (induction k) simp_all

lemma present_sortLatencies: "present (sortLatencies ls) = sort (present ls)"
  by (simp add: sortLatencies_def present_append present_map_Some present_replicate_None)

lemma length_present_le: "length (present xs) \<le> length xs"
  by (induction xs rule: present.induct) simp_all

lemma length_sortLatencies: "length (sortLatencies ls) = length ls"
  using length_present_le[of ls] by (simp add: sortLatencies_def)

lemma measuresTaken_sortLatencies: "measuresTaken (sortLatencies ls) = measuresTaken ls"
  by (simp add: measuresTaken_def present_sortLatencies filter_sort)

lemma measuresTaken_le_present: "measuresTaken ls \<le> length (present ls)"
  by (simp add: measuresTaken_def)

lemma measuresTaken_no_zero: "0 \<notin> set (present ls) \<Longrightarrow> measuresTaken ls = length (present ls)"
  unfolding measuresTaken_def by (induction ls rule: present.induct) auto

lemma beyond_bound: "snd (foldl (averageStep cfg) (a, n) xs) \<le> n + length xs"
proof (induction xs arbitrary: a n)
  case Nil
  show ?case by simp
next
  case (Cons x xs)
  show ?case
  proof (cases "\<bar>a - x\<bar> < LATENCY_DEVIATION_ALLOWED cfg")
    case True
    then show ?thesis using Cons[of "(a + x) / 2" n] by (simp add: averageStep_def)
  next
    case False
    then show ?thesis using Cons[of a "n + 1"] by (simp add: averageStep_def)
  qed
qed

lemma latencyOf_unit:
  assumes iw: "0 \<le> LATENCY_SCORE_INSTABILITY_WEIGHT cfg" "LATENCY_SCORE_INSTABILITY_WEIGHT cfg \<le> 1"
    and ale: "0 < AVERAGE_LATENCY_EXPECTED cfg"
    and tw: "0 \<le> tw" "tw \<le> 1"
    and len: "length (present srt) \<le> m"
  shows "0 \<le> latencyOf cfg tw m srt \<and> latencyOf cfg tw m srt \<le> 1"
proof -
  define middle where "middle = (case srt ! (m div 2) of Some v \<Rightarrow> v | None \<Rightarrow> 0)"
  define folded where "folded = foldl (averageStep cfg) (middle, 0) (present srt)"
  define avg where "avg = fst folded"
  define corrected where "corrected = (if m > 3 then snd folded else 0)"
  define instab :: rat where "instab = 1 - of_nat corrected / of_nat m"
  define ping where "ping = (if avg / AVERAGE_LATENCY_EXPECTED cfg \<le> 1 then 1
                            else AVERAGE_LATENCY_EXPECTED cfg / avg)"
  define raw where "raw = toFixed2 (ping * (1 - LATENCY_SCORE_INSTABILITY_WEIGHT cfg)
                       + instab * LATENCY_SCORE_INSTABILITY_WEIGHT cfg)"
  have eq: "latencyOf cfg tw m srt = toFixed2 (1 - tw * raw)"
    by (simp add: latencyOf_def Let_def raw_def ping_def instab_def corrected_def avg_def
        folded_def middle_def)
  have "snd folded \<le> length (present srt)"
    using beyond_bound[of cfg middle 0 "present srt"] by (simp add: folded_def)
  then have "corrected \<le> m" using len by (simp add: corrected_def)
  then have "(of_nat corrected / of_nat m :: rat) \<le> 1" by (auto simp: divide_le_eq_1)
  moreover have "0 \<le> (of_nat corrected / of_nat m :: rat)" by simp
  ultimately have instab: "0 \<le> instab" "instab \<le> 1" by (simp_all add: instab_def)
  have ping: "0 \<le> ping \<and> ping \<le> 1"
  proof (cases "avg / AVERAGE_LATENCY_EXPECTED cfg \<le> 1")
    case True
    then show ?thesis by (simp add: ping_def)
  next
    case False
    then have "AVERAGE_LATENCY_EXPECTED cfg < avg" using ale by (simp add: divide_le_eq_1)
    then show ?thesis using ale False by (simp add: ping_def divide_le_eq_1)
  qed
  let ?w = "LATENCY_SCORE_INSTABILITY_WEIGHT cfg"
  have "ping * (1 - ?w) \<le> 1 * (1 - ?w)" using ping iw by (intro mult_right_mono) simp_all
  moreover have "instab * ?w \<le> 1 * ?w" using instab iw by (intro mult_right_mono) simp_all
  ultimately have up: "ping * (1 - ?w) + instab * ?w \<le> 1" by simp
  have "0 \<le> ping * (1 - ?w)" "0 \<le> instab * ?w" using ping instab iw by simp_all
  then have lo: "0 \<le> ping * (1 - ?w) + instab * ?w" by simp
  from toFixed2_unit[OF lo up] have raw: "0 \<le> raw" "raw \<le> 1" by (simp_all add: raw_def)
  have "tw * raw \<le> 1 * 1" using tw raw by (intro mult_mono) simp_all
  moreover have "0 \<le> tw * raw" using tw raw by simp
  ultimately show ?thesis unfolding eq by (intro toFixed2_unit) simp_all
qed

text \<open>The element read at line 168 is never a hole once the scorer got past line 151.\<close>

lemma middle_is_element:
  assumes "2 \<le> measuresTaken ls"
  shows "\<exists>v. sortLatencies ls ! (measuresTaken ls div 2) = Some v"
proof -
  have "measuresTaken ls div 2 < length (sort (present ls))"
    using assms measuresTaken_le_present[of ls] by simp
  then show ?thesis by (simp add: sortLatencies_def nth_append)
qed

section \<open>Sample data\<close>

text \<open>A configuration for the examples (the repository's constants are not at hand;
  these values satisfy what its tests expect), and the record \<open>unhealthy()\<close> of the
  tests: three good answers at the expected latency, three server errors at twice that.\<close>

definition sampleConfig :: config where
  "sampleConfig = \<lparr>LATENCY_DEVIATION_ALLOWED = 50, AVERAGE_LATENCY_EXPECTED = 100,
     HEALTH_SCORE_WEIGHT = 1 / 2, LATENCY_SCORE_WEIGHT = 1 / 2,
     LATENCY_SCORE_INSTABILITY_WEIGHT = 1 / 2\<rparr>"

definition unhealthy :: Backend where
  "unhealthy = \<lparr>proxy = 0, requestCount = 0, scoredRequestCount = 0,
     statuses = map Some [200, 200, 200, 500, 500, 500],
     latencies = map Some [100, 100, 100, 200, 200, 200],
     lastError = 0, healthScore = 1 / 2, latencyScore = 1 / 2, combinedScore = 1 / 2,
     errorCount = 0\<rparr>"

text \<open>The model computes the values the repository's tests expect of \<open>score\<close> on this
  record: 0.5 at reference time 0 and 999, then 0.6, 0.85 and 0.95.\<close>

lemma score_unhealthy_as_tested:
  "fst (score sampleConfig unhealthy (Some 0) 0) = (1 / 2, 1 / 2, 1 / 2)"
  "fst (fst (score sampleConfig unhealthy (Some (lastError unhealthy + 999)) 0)) = 1 / 2"
  "fst (fst (score sampleConfig unhealthy (Some (lastError unhealthy + 2000)) 0)) = 6 / 10"
  "fst (fst (score sampleConfig unhealthy (Some (lastError unhealthy + 4000)) 0)) = 85 / 100"
  "fst (fst (score sampleConfig unhealthy (Some (lastError unhealthy + 9000)) 0)) = 95 / 100"
  by code_simp+

text \<open>Calls of the function that \<open>balancer\<close> returns, one after the other: each call
  brings its request and its events, and works on the pool the call before left.\<close>

definition serve :: "config \<Rightarrow> Backend list \<Rightarrow> (RequestInfo \<times> (nat \<Rightarrow> event)) list \<Rightarrow> Backend list" where
  "serve cfg tracked calls =
     foldl (\<lambda>t call. snd (fetchBalancer cfg t (fst call) (snd call))) tracked calls"

text \<open>Events: the transport answers with status \<open>st\<close> at time \<open>t\<close> after \<open>ms\<close>
  milliseconds, or its promise is rejected, or the transport throws when it is called.\<close>

definition answers :: "int \<Rightarrow> int \<Rightarrow> int \<Rightarrow> event" where
  "answers st t ms =
     \<lparr>random2 = 0, throws = (\<lambda>p. False),
      settle = (\<lambda>p. Resolves \<lparr>status = st, body = []\<rparr>),
      requestStart = t, requestEnd = t + ms,
      nowRescore = t, nowError = t + ms, nowScore = t + ms\<rparr>"

definition fails :: "int \<Rightarrow> event" where
  "fails t =
     \<lparr>random2 = 0, throws = (\<lambda>p. False), settle = (\<lambda>p. Rejects),
      requestStart = t, requestEnd = t,
      nowRescore = t, nowError = t, nowScore = t\<rparr>"

definition throwing :: "int \<Rightarrow> event" where
  "throwing t =
     \<lparr>random2 = 0, throws = (\<lambda>p. True), settle = (\<lambda>p. Rejects),
      requestStart = t, requestEnd = t,
      nowRescore = t, nowError = t, nowScore = t\<rparr>"

definition threeCalls :: "(RequestInfo \<times> (nat \<Rightarrow> event)) list" where
  "threeCalls =
     [(Url ''http://localhost/'', \<lambda>k. answers 500 100000 5),
      (Url ''http://localhost/'', \<lambda>k. answers 500 200000 5),
      (Url ''http://localhost/'', \<lambda>k. fails 300000)]"

section \<open>The time-decay weight\<close>

text \<open>
  Claim C7 says that the weight is 0 when \<open>lastError\<close> is 0 (no error ever seen), and
  the step function of \<open>now - lastError\<close> otherwise. Line 143 opens the chain with
  \<open>(backend.lastError === 0 && 0) ||\<close>, written to give the weight 0 to a record
  with \<open>lastError\<close> 0; but the value of that operand, the number 0, is falsy, so
  \<open>||\<close> goes on to the steps, and the weight is the step function for every
  \<open>lastError\<close> (lemma \<open>timeWeight_steps\<close>). The record \<open>unhealthy\<close> has
  \<open>lastError = 0\<close>; scored at reference time 500 its weight is 1, not 0, and its
  health score is 1/2, where the weight 0 gives the health score 1. The tests of the
  repository do not see it: their fixture has \<open>lastError\<close> 0 and takes it as the
  time the errors happened.
\<close>

theorem timeWeight_never_seen_is_not_zero:
  "lastError unhealthy = 0
   \<and> toNumber (timeWeight (lastError unhealthy) (500 - lastError unhealthy)) = 1
   \<and> toNumber (timeWeight (lastError unhealthy) (500 - lastError unhealthy)) \<noteq> 0
   \<and> fst (fst (score sampleConfig unhealthy (Some 500) 0)) = 1 / 2
   \<and> healthOf 0 (countErrors (statuses unhealthy)) (measuresTaken (latencies unhealthy)) = 1"
  by code_simp

section \<open>The health score under decay\<close>

text \<open>
  Claim C8. For a fixed record (a fixed error history), the health score the scorer
  returns at \<open>elapsed = 999\<close> ms equals the one at \<open>elapsed = 0\<close>; the health score
  is non-decreasing in \<open>elapsed\<close>, so it increases or stays equal across each of the
  boundaries 1000, 3000, 5000 and 10000 ms; and from 10000 ms on it is the health score
  without the decay term, which is 1 (for a record with at least two samples; with
  fewer the scorer returns 0 at every time). The reference time is passed as
  \<open>errorBasis\<close>, as the tests do; the clock is not read then.
\<close>

theorem healthScore_decay:
  "fst (fst (score cfg b (Some (lastError b + 999)) c)) = fst (fst (score cfg b (Some (lastError b + 0)) c'))
   \<and> (e1 \<le> e2 \<longrightarrow> fst (fst (score cfg b (Some (lastError b + e1)) c))
                     \<le> fst (fst (score cfg b (Some (lastError b + e2)) c')))
   \<and> (10000 \<le> e \<and> 2 \<le> measuresTaken (latencies b) \<longrightarrow>
        fst (fst (score cfg b (Some (lastError b + e)) c)) = 1)"
proof (intro conjI impI)
  show "fst (fst (score cfg b (Some (lastError b + 999)) c)) = fst (fst (score cfg b (Some (lastError b + 0)) c'))"
    by (simp add: score_health timeWeight_steps)
next
  assume "e1 \<le> e2"
  then have "toNumber (timeWeight (lastError b) e2) \<le> toNumber (timeWeight (lastError b) e1)"
    by (rule timeWeight_antimono)
  then show "fst (fst (score cfg b (Some (lastError b + e1)) c))
                     \<le> fst (fst (score cfg b (Some (lastError b + e2)) c'))"
    by (simp add: score_health healthOf_mono)
next
  assume "10000 \<le> e \<and> 2 \<le> measuresTaken (latencies b)"
  then show "fst (fst (score cfg b (Some (lastError b + e)) c)) = 1"
    by (simp add: score_health timeWeight_steps healthOf_zero_weight)
qed

theorem healthScore_decay_witness:
  "(2000::int) \<le> 4000 \<and> (10000::int) \<le> 10000 \<and> 2 \<le> measuresTaken (latencies unhealthy)
   \<and> fst (fst (score sampleConfig unhealthy (Some (lastError unhealthy + 999)) 0))
       = fst (fst (score sampleConfig unhealthy (Some (lastError unhealthy + 0)) 0))
   \<and> fst (fst (score sampleConfig unhealthy (Some (lastError unhealthy + 2000)) 0))
       \<le> fst (fst (score sampleConfig unhealthy (Some (lastError unhealthy + 4000)) 0))
   \<and> fst (fst (score sampleConfig unhealthy (Some (lastError unhealthy + 10000)) 0)) = 1"
proof -
  have m: "2 \<le> measuresTaken (latencies unhealthy)" by code_simp
  show ?thesis
    using healthScore_decay[of sampleConfig unhealthy 0 0 2000 4000 10000] m by simp
qed

section \<open>The range of the health and latency scores\<close>

text \<open>
  Claim C3 as stated: the health score and the latency score always lie in [0,1].
  The health score is \<open>1 - weight * (errors / measured)\<close>, where \<open>errors\<close> counts the
  statuses of the buffer and \<open>measured\<close> only the latencies that are not 0. A pool of
  one backend answers two GET requests with status 500 after 5 ms each, and the third
  call's promise is rejected (status 502, latency 0): three errors on two samples,
  and the stored health score is \<open>1 - 3/2\<close>.
\<close>

theorem healthScore_negative_counterexample:
  "healthScore (serve sampleConfig (balancer [0]) threeCalls ! 0) = - 1 / 2"
  by code_simp

text \<open>
  Claim C3, amended. When no latency sample in the buffer is 0 and the buffer holds no
  more server errors than samples, and the configuration has an instability weight in
  [0,1] and a positive expected latency, then the health score and the latency score
  that the scorer returns lie in [0,1], and so do the ones stored in the record
  afterwards (given they did before); the combined score is their weighted sum
  \<open>healthScore * HEALTH_SCORE_WEIGHT + latencyScore * LATENCY_SCORE_WEIGHT\<close>, with no
  bound of its own.
\<close>

theorem scores_in_unit_interval:
  assumes "0 \<le> LATENCY_SCORE_INSTABILITY_WEIGHT cfg" "LATENCY_SCORE_INSTABILITY_WEIGHT cfg \<le> 1"
    and "0 < AVERAGE_LATENCY_EXPECTED cfg"
    and "countErrors (statuses b) \<le> measuresTaken (latencies b)"
    and "0 \<notin> set (present (latencies b))"
    and "0 \<le> healthScore b" "healthScore b \<le> 1" "0 \<le> latencyScore b" "latencyScore b \<le> 1"
  shows "case score cfg b errorBasis clock of
           ((hs, ls, sc), b') \<Rightarrow>
              0 \<le> hs \<and> hs \<le> 1 \<and> 0 \<le> ls \<and> ls \<le> 1
            \<and> sc = hs * HEALTH_SCORE_WEIGHT cfg + ls * LATENCY_SCORE_WEIGHT cfg
            \<and> 0 \<le> healthScore b' \<and> healthScore b' \<le> 1
            \<and> 0 \<le> latencyScore b' \<and> latencyScore b' \<le> 1"
proof (cases "measuresTaken (latencies b) < 2")
  case True
  then show ?thesis using assms by (simp add: score_def Let_def)
next
  case False
  define tw where "tw = toNumber (timeWeight (lastError b)
      ((case errorBasis of None \<Rightarrow> clock | Some e \<Rightarrow> e) - lastError b))"
  have tw: "0 \<le> tw" "tw \<le> 1" using timeWeight_range by (simp_all add: tw_def)
  have h: "0 \<le> healthOf tw (countErrors (statuses b)) (measuresTaken (latencies b))
         \<and> healthOf tw (countErrors (statuses b)) (measuresTaken (latencies b)) \<le> 1"
    using healthOf_unit[OF tw assms(4)] .
  have "length (present (sortLatencies (latencies b))) \<le> measuresTaken (latencies b)"
    using measuresTaken_no_zero[OF assms(5)] by (simp add: present_sortLatencies)
  from latencyOf_unit[OF assms(1,2,3) tw this]
  have l: "0 \<le> latencyOf cfg tw (measuresTaken (latencies b)) (sortLatencies (latencies b))
         \<and> latencyOf cfg tw (measuresTaken (latencies b)) (sortLatencies (latencies b)) \<le> 1" .
  show ?thesis using False h l by (simp add: score_def Let_def tw_def)
qed

theorem scores_in_unit_interval_witness:
  "0 \<le> LATENCY_SCORE_INSTABILITY_WEIGHT sampleConfig
   \<and> LATENCY_SCORE_INSTABILITY_WEIGHT sampleConfig \<le> 1
   \<and> 0 < AVERAGE_LATENCY_EXPECTED sampleConfig
   \<and> countErrors (statuses unhealthy) \<le> measuresTaken (latencies unhealthy)
   \<and> 0 \<notin> set (present (latencies unhealthy))
   \<and> fst (score sampleConfig unhealthy (Some 2000) 0) = (6 / 10, 6 / 10, 6 / 10)
   \<and> 0 \<le> healthScore (snd (score sampleConfig unhealthy (Some 2000) 0))
   \<and> healthScore (snd (score sampleConfig unhealthy (Some 2000) 0)) \<le> 1
   \<and> 0 \<le> latencyScore (snd (score sampleConfig unhealthy (Some 2000) 0))
   \<and> latencyScore (snd (score sampleConfig unhealthy (Some 2000) 0)) \<le> 1"
proof -
  have hyp: "0 \<le> LATENCY_SCORE_INSTABILITY_WEIGHT sampleConfig"
    "LATENCY_SCORE_INSTABILITY_WEIGHT sampleConfig \<le> 1"
    "0 < AVERAGE_LATENCY_EXPECTED sampleConfig"
    "countErrors (statuses unhealthy) \<le> measuresTaken (latencies unhealthy)"
    "0 \<notin> set (present (latencies unhealthy))"
    "0 \<le> healthScore unhealthy" "healthScore unhealthy \<le> 1"
    "0 \<le> latencyScore unhealthy" "latencyScore unhealthy \<le> 1"
    by code_simp+
  have val: "fst (score sampleConfig unhealthy (Some 2000) 0) = (6 / 10, 6 / 10, 6 / 10)"
    by code_simp
  from scores_in_unit_interval[OF hyp, of "Some 2000" 0] hyp val show ?thesis
    by (auto split: prod.splits)
qed

section \<open>Facts about the dispatch loop\<close>

declare fetchLoop.simps [simp del]

lemma score_unmeasured:
  "measuresTaken (latencies b) < 2 \<Longrightarrow> score cfg b eb clock = ((0, 0, 0), b)"
  by (simp add: score_def Let_def)

lemma score_frame:
  "statuses (snd (score cfg b eb clock)) = statuses b"
  "requestCount (snd (score cfg b eb clock)) = requestCount b"
  "lastError (snd (score cfg b eb clock)) = lastError b"
  "proxy (snd (score cfg b eb clock)) = proxy b"
  "errorCount (snd (score cfg b eb clock)) = errorCount b"
  by (simp_all add: score_def Let_def)

lemma score_latencies:
  "latencies (snd (score cfg b eb clock)) =
     (if measuresTaken (latencies b) < 2 then latencies b else sortLatencies (latencies b))"
  by (simp add: score_def Let_def)

lemma score_length_latencies:
  "length (latencies (snd (score cfg b eb clock))) = length (latencies b)"
  by (simp add: score_latencies length_sortLatencies)

lemma score_measuresTaken:
  "measuresTaken (latencies (snd (score cfg b eb clock))) = measuresTaken (latencies b)"
  by (simp add: score_latencies measuresTaken_sortLatencies)

lemma attempt_response: "fst (attempt cfg ev b) = fst (awaitResponse ev (proxy b))"
  by (simp add: attempt_def startAttempt_def finishAttempt_def Let_def score_frame)

lemma attempt_requestCount: "requestCount (snd (attempt cfg ev b)) = requestCount b + 1"
  by (simp add: attempt_def startAttempt_def finishAttempt_def Let_def score_frame writeBuffers_def)

lemma attempt_proxy: "proxy (snd (attempt cfg ev b)) = proxy b"
  by (simp add: attempt_def startAttempt_def finishAttempt_def Let_def score_frame writeBuffers_def)

lemma attempt_statuses:
  "statuses (snd (attempt cfg ev b)) =
     (if length (statuses b) < 10 then statuses b @ [Some (status (fst (attempt cfg ev b)))]
      else (statuses b)[requestCount b mod length (statuses b)
              := Some (status (fst (attempt cfg ev b)))])"
  by (simp add: attempt_def startAttempt_def finishAttempt_def Let_def score_frame writeBuffers_def)

lemma attempt_length_latencies:
  "length (latencies (snd (attempt cfg ev b))) =
     (if length (statuses b) < 10 then length (latencies b) + 1 else length (latencies b))"
  by (simp add: attempt_def startAttempt_def finishAttempt_def Let_def score_frame score_length_latencies writeBuffers_def)

lemma awaitResponse_Rejects: "settle ev p = Rejects \<Longrightarrow> awaitResponse ev p = (proxyError, 0)"
  by (simp add: awaitResponse_def)

lemma awaitResponse_cases:
  "fst (awaitResponse ev p) = proxyError \<or> settle ev p = Resolves (fst (awaitResponse ev p))"
  by (cases "settle ev p") (simp_all add: awaitResponse_def)

text \<open>The five ways through one evaluation of the loop condition and body.\<close>

lemma fetchLoop_exhausted:
  "\<not> length attempted < length tracked \<Longrightarrow>
     fetchLoop cfg req env k attempted tracked = (Inr proxyError, tracked)"
  by (subst fetchLoop.simps) simp

lemma fetchLoop_none:
  "length attempted < length tracked \<Longrightarrow> chooseBackends tracked attempted = (None, b) \<Longrightarrow>
     fetchLoop cfg req env k attempted tracked = (Inr noBackendResponse, tracked)"
  by (subst fetchLoop.simps) simp

lemma fetchLoop_threw:
  "length attempted < length tracked \<Longrightarrow> chooseBackends tracked attempted = (Some a, b) \<Longrightarrow>
   throws (env k) (proxy (tracked ! pick (env k) a b)) \<Longrightarrow>
     fetchLoop cfg req env k attempted tracked = (Inl TransportThrew, tracked)"
  by (subst fetchLoop.simps) (simp add: Let_def)

text \<open>The condition of lines 101 and 104 under which the loop continues.\<close>

definition retries :: "Request \<Rightarrow> Response \<Rightarrow> bool" where
  "retries req resp = (status resp \<ge> 500 \<and> status resp < 600 \<and> canRetry req resp)"

lemma fetchLoop_step:
  assumes "length attempted < length tracked" "chooseBackends tracked attempted = (Some a, b)"
    and "\<not> throws (env k) (proxy (tracked ! pick (env k) a b))"
  shows "fetchLoop cfg req env k attempted tracked =
     (let i = pick (env k) a b; r = attempt cfg (env k) (tracked ! i)
      in if retries req (fst r)
         then fetchLoop cfg req env (Suc k) (List.insert i attempted) (tracked[i := snd r])
         else (Inr (fst r), tracked[i := snd r]))"
  using assms by (subst fetchLoop.simps) (simp add: Let_def retries_def)

lemma fetchLoop_cases [consumes 0, case_names exhausted none return again threw]:
  assumes "\<not> length attempted < length tracked \<Longrightarrow> P"
    and "\<And>b. length attempted < length tracked \<Longrightarrow> chooseBackends tracked attempted = (None, b) \<Longrightarrow> P"
    and "\<And>a b. length attempted < length tracked \<Longrightarrow> chooseBackends tracked attempted = (Some a, b)
           \<Longrightarrow> \<not> retries req (fst (attempt cfg (env k) (tracked ! pick (env k) a b)))
           \<Longrightarrow> \<not> throws (env k) (proxy (tracked ! pick (env k) a b)) \<Longrightarrow> P"
    and "\<And>a b. length attempted < length tracked \<Longrightarrow> chooseBackends tracked attempted = (Some a, b)
           \<Longrightarrow> retries req (fst (attempt cfg (env k) (tracked ! pick (env k) a b)))
           \<Longrightarrow> \<not> throws (env k) (proxy (tracked ! pick (env k) a b)) \<Longrightarrow> P"
    and "\<And>a b. length attempted < length tracked \<Longrightarrow> chooseBackends tracked attempted = (Some a, b)
           \<Longrightarrow> throws (env k) (proxy (tracked ! pick (env k) a b)) \<Longrightarrow> P"
  shows P
proof (cases "length attempted < length tracked")
  case False
  then show ?thesis by (rule assms(1))
next
  case True
  obtain b1 b2 where ch: "chooseBackends tracked attempted = (b1, b2)" by (cases "chooseBackends tracked attempted")
  show ?thesis
  proof (cases b1)
    case None
    with True ch show ?thesis using assms(2) by simp
  next
    case (Some a)
    with True ch show ?thesis using assms(3)[of a b2] assms(4)[of a b2] assms(5)[of a b2] by blast
  qed
qed

text \<open>An induction rule for the loop that hides the shape of its definition.\<close>

lemma fetchLoop_induct [consumes 0, case_names exhausted none return again threw]:
  assumes "\<And>k attempted tracked. \<not> length attempted < length tracked \<Longrightarrow> P k attempted tracked"
    and "\<And>k attempted tracked b. length attempted < length tracked
           \<Longrightarrow> chooseBackends tracked attempted = (None, b) \<Longrightarrow> P k attempted tracked"
    and "\<And>k attempted tracked a b. length attempted < length tracked
           \<Longrightarrow> chooseBackends tracked attempted = (Some a, b)
           \<Longrightarrow> \<not> retries req (fst (attempt cfg (env k) (tracked ! pick (env k) a b)))
           \<Longrightarrow> \<not> throws (env k) (proxy (tracked ! pick (env k) a b))
           \<Longrightarrow> P k attempted tracked"
    and "\<And>k attempted tracked a b. length attempted < length tracked
           \<Longrightarrow> chooseBackends tracked attempted = (Some a, b)
           \<Longrightarrow> retries req (fst (attempt cfg (env k) (tracked ! pick (env k) a b)))
           \<Longrightarrow> P (Suc k) (List.insert (pick (env k) a b) attempted)
                 (tracked[pick (env k) a b := snd (attempt cfg (env k) (tracked ! pick (env k) a b))])
           \<Longrightarrow> \<not> throws (env k) (proxy (tracked ! pick (env k) a b))
           \<Longrightarrow> P k attempted tracked"
    and "\<And>k attempted tracked a b. length attempted < length tracked
           \<Longrightarrow> chooseBackends tracked attempted = (Some a, b)
           \<Longrightarrow> throws (env k) (proxy (tracked ! pick (env k) a b))
           \<Longrightarrow> P k attempted tracked"
  shows "P k attempted tracked"
proof (induction "length tracked - length attempted" arbitrary: k attempted tracked rule: less_induct)
  case less
  show ?case
  proof (cases rule: fetchLoop_cases[where attempted=attempted and tracked=tracked and req=req and cfg=cfg and env=env and k=k])
    case exhausted
    then show ?thesis by (rule assms(1))
  next
    case (none b)
    then show ?thesis by (rule assms(2))
  next
    case (return a b)
    then show ?thesis by (rule assms(3))
  next
    case (again a b)
    let ?i = "pick (env k) a b"
    have "length (tracked[?i := snd (attempt cfg (env k) (tracked ! ?i))]) - length (List.insert ?i attempted)
          < length tracked - length attempted"
      using insert_pick_decreases[OF again(2,1), of "env k"] by simp
    from less[OF this]
    have "P (Suc k) (List.insert ?i attempted) (tracked[?i := snd (attempt cfg (env k) (tracked ! ?i))])" .
    with again show ?thesis by (intro assms(4)[of attempted tracked a b k]) simp_all
  next
    case (threw a b)
    then show ?thesis by (rule assms(5))
  qed
qed


lemma fetchLoop_records:
  "length (snd (fetchLoop cfg req env k attempted tracked)) = length tracked
   \<and> (\<forall>i<length tracked.
         snd (fetchLoop cfg req env k attempted tracked) ! i = tracked ! i
       \<or> (i \<notin> set attempted
          \<and> (\<exists>j. snd (fetchLoop cfg req env k attempted tracked) ! i
                   = snd (attempt cfg (env j) (tracked ! i)))))"
proof (induction k attempted tracked rule: fetchLoop_induct[where req=req and cfg=cfg and env=env])
  case (exhausted k attempted tracked)
  then show ?case by (simp add: fetchLoop_exhausted)
next
  case (none k attempted tracked b)
  then show ?case by (simp add: fetchLoop_none)
next
  case (return k attempted tracked a b)
  let ?i = "pick (env k) a b"
  have i: "?i < length tracked" "?i \<notin> set attempted"
    using pick_untried[OF return(2), of "env k"] by simp_all
  have eq: "fetchLoop cfg req env k attempted tracked
      = (Inr (fst (attempt cfg (env k) (tracked ! ?i))),
         tracked[?i := snd (attempt cfg (env k) (tracked ! ?i))])"
    using return by (simp add: fetchLoop_step Let_def)
  show ?case unfolding eq using i by (auto simp: nth_list_update)
next
  case (again k attempted tracked a b)
  let ?i = "pick (env k) a b"
  let ?t = "tracked[?i := snd (attempt cfg (env k) (tracked ! ?i))]"
  have i: "?i < length tracked" "?i \<notin> set attempted"
    using pick_untried[OF again(2), of "env k"] by simp_all
  have eq: "fetchLoop cfg req env k attempted tracked
      = fetchLoop cfg req env (Suc k) (List.insert ?i attempted) ?t"
    using again.hyps by (simp add: fetchLoop_step Let_def)
  from again.IH have len: "length (snd (fetchLoop cfg req env (Suc k) (List.insert ?i attempted) ?t)) = length tracked"
    and ih: "\<And>n. n < length tracked \<Longrightarrow>
         snd (fetchLoop cfg req env (Suc k) (List.insert ?i attempted) ?t) ! n = ?t ! n
       \<or> (n \<notin> set (List.insert ?i attempted)
          \<and> (\<exists>j. snd (fetchLoop cfg req env (Suc k) (List.insert ?i attempted) ?t) ! n
                   = snd (attempt cfg (env j) (?t ! n))))"
    by simp_all
  show ?case unfolding eq
  proof (intro conjI allI impI)
    show "length (snd (fetchLoop cfg req env (Suc k) (List.insert ?i attempted) ?t)) = length tracked"
      by (rule len)
  next
    fix n assume n: "n < length tracked"
    show "snd (fetchLoop cfg req env (Suc k) (List.insert ?i attempted) ?t) ! n = tracked ! n
       \<or> (n \<notin> set attempted
          \<and> (\<exists>j. snd (fetchLoop cfg req env (Suc k) (List.insert ?i attempted) ?t) ! n
                   = snd (attempt cfg (env j) (tracked ! n))))"
    proof (cases "n = ?i")
      case True
      with ih[OF n] have "snd (fetchLoop cfg req env (Suc k) (List.insert ?i attempted) ?t) ! n = ?t ! n"
        by auto
      then show ?thesis using True i by auto
    next
      case False
      with ih[OF n] show ?thesis by auto
    qed
  qed
next
  case (threw k attempted tracked a b)
  then show ?case by (simp add: fetchLoop_threw)
qed

lemma chooseBackends_some:
  assumes "length attempted < length tracked"
  shows "\<exists>a b. chooseBackends tracked attempted = (Some a, b)"
proof (rule ccontr)
  assume "\<not> ?thesis"
  then have "fst (chooseBackends tracked attempted) = None"
    by (cases "chooseBackends tracked attempted") auto
  then obtain b where "chooseBackends tracked attempted = (None, b)"
    by (cases "chooseBackends tracked attempted") auto
  with topTwo_chooseBackends[of tracked attempted]
  have "\<forall>j<length tracked. j \<in> set attempted" by (simp add: topTwo_def)
  then have "{..<length tracked} \<subseteq> set attempted" by auto
  then have "card {..<length tracked} \<le> card (set attempted)" by (intro card_mono) simp_all
  moreover have "card (set attempted) \<le> length attempted" by (rule card_length)
  ultimately show False using assms by simp
qed

lemma fetchLoop_never_none:
  "fst (fetchLoop cfg req env k attempted tracked) = Inl TransportThrew
   \<or> fst (fetchLoop cfg req env k attempted tracked) = Inr proxyError
   \<or> (\<exists>j p r. settle (env j) p = Resolves r
          \<and> fst (fetchLoop cfg req env k attempted tracked) = Inr r)"
proof (induction k attempted tracked rule: fetchLoop_induct[where req=req and cfg=cfg and env=env])
  case (exhausted k attempted tracked)
  then show ?case by (simp add: fetchLoop_exhausted)
next
  case (none k attempted tracked b)
  then show ?case using chooseBackends_some[of attempted tracked] by simp
next
  case (return k attempted tracked a b)
  let ?i = "pick (env k) a b"
  have eq: "fst (fetchLoop cfg req env k attempted tracked)
      = Inr (fst (awaitResponse (env k) (proxy (tracked ! ?i))))"
    using return by (simp add: fetchLoop_step Let_def attempt_response)
  show ?case unfolding eq using awaitResponse_cases[of "env k" "proxy (tracked ! ?i)"] by auto
next
  case (again k attempted tracked a b)
  then show ?case by (simp add: fetchLoop_step Let_def)
next
  case (threw k attempted tracked a b)
  then show ?case by (simp add: fetchLoop_threw)
qed

text \<open>A promise that settles like a server error: rejected, or resolved with a status
  in [500,600).\<close>

fun serverError :: "outcome \<Rightarrow> bool" where
  "serverError (Resolves r) = (status r \<ge> 500 \<and> status r < 600)"
| "serverError Rejects = True"

lemma status_proxyError: "status proxyError = 502"
  by (simp add: proxyError_def)

lemma retries_serverError:
  assumes "serverError (settle ev (proxy b))"
    and "httpMethod req = ''GET'' \<or> httpMethod req = ''HEAD''"
  shows "retries req (fst (attempt cfg ev b))"
  using assms
  by (cases "settle ev (proxy b)")
     (auto simp: retries_def canRetry_def attempt_response awaitResponse_def status_proxyError)

lemma not_retries_unsafe:
  "httpMethod req \<noteq> ''GET'' \<Longrightarrow> httpMethod req \<noteq> ''HEAD'' \<Longrightarrow> \<not> retries req resp"
  by (simp add: retries_def canRetry_def)

lemma not_retries_below_500: "status resp < 500 \<Longrightarrow> \<not> retries req resp"
  by (simp add: retries_def)

lemma fetchLoop_exhausts:
  assumes "\<forall>j p. serverError (settle (env j) p)"
    and "httpMethod req = ''GET'' \<or> httpMethod req = ''HEAD''"
    and "\<forall>j p. \<not> throws (env j) p"
  shows "distinct attempted \<Longrightarrow> set attempted \<subseteq> {..<length tracked} \<Longrightarrow>
     fst (fetchLoop cfg req env k attempted tracked) = Inr proxyError
   \<and> (\<forall>i<length tracked. i \<notin> set attempted \<longrightarrow>
         requestCount (snd (fetchLoop cfg req env k attempted tracked) ! i) = requestCount (tracked ! i) + 1)"
proof (induction k attempted tracked rule: fetchLoop_induct[where req=req and cfg=cfg and env=env])
  case (exhausted k attempted tracked)
  have "card (set attempted) = length attempted" using exhausted.prems(1) by (rule distinct_card)
  moreover have "card (set attempted) \<le> card {..<length tracked}"
    using exhausted.prems(2) by (intro card_mono) simp_all
  ultimately have "card (set attempted) = card {..<length tracked}" using exhausted(1) by simp
  then have "set attempted = {..<length tracked}"
    using exhausted.prems(2) by (intro card_subset_eq) simp_all
  then show ?case using exhausted(1) by (auto simp: fetchLoop_exhausted)
next
  case (none k attempted tracked b)
  then show ?case using chooseBackends_some[of attempted tracked] by simp
next
  case (return k attempted tracked a b)
  then show ?case using retries_serverError[OF _ assms(2)] assms(1) by blast
next
  case (again k attempted tracked a b)
  let ?i = "pick (env k) a b"
  let ?t = "tracked[?i := snd (attempt cfg (env k) (tracked ! ?i))]"
  let ?r = "fetchLoop cfg req env (Suc k) (List.insert ?i attempted) ?t"
  have i: "?i < length tracked" "?i \<notin> set attempted"
    using pick_untried[OF again(2), of "env k"] by simp_all
  have eq: "fetchLoop cfg req env k attempted tracked = ?r"
    using again.hyps by (simp add: fetchLoop_step Let_def)
  have "distinct (List.insert ?i attempted)" "set (List.insert ?i attempted) \<subseteq> {..<length ?t}"
    using again.prems i by auto
  from again.IH[OF this] have res: "fst ?r = Inr proxyError"
    and ih: "\<And>n. n < length tracked \<Longrightarrow> n \<noteq> ?i \<Longrightarrow> n \<notin> set attempted \<Longrightarrow>
               requestCount (snd ?r ! n) = requestCount (?t ! n) + 1"
    by simp_all
  have same: "snd ?r ! ?i = ?t ! ?i"
    using fetchLoop_records[of cfg req env "Suc k" "List.insert ?i attempted" ?t] i by auto
  show ?case unfolding eq
  proof (intro conjI allI impI)
    show "fst ?r = Inr proxyError" by (rule res)
  next
    fix n assume n: "n < length tracked" "n \<notin> set attempted"
    show "requestCount (snd ?r ! n) = requestCount (tracked ! n) + 1"
    proof (cases "n = ?i")
      case True
      then show ?thesis using same i by (simp add: attempt_requestCount)
    next
      case False
      then show ?thesis using ih[OF n(1) False n(2)] by simp
    qed
  qed
next
  case (threw k attempted tracked a b)
  then show ?case using assms(3) by blast
qed

section \<open>Retries\<close>

lemma total_after_attempt:
  assumes "i < length tracked"
  shows "sum_list (map requestCount (tracked[i := snd (attempt cfg ev (tracked ! i))]))
           = sum_list (map requestCount tracked) + 1"
proof -
  have "requestCount (tracked ! i) \<le> sum_list (map requestCount tracked)"
    using assms by (intro member_le_sum_list) simp_all
  then show ?thesis using assms
    by (simp add: map_update sum_list_update attempt_requestCount)
qed

lemma total_bounded:
  assumes "length ys = length xs"
    and "\<forall>i<length xs. requestCount (ys ! i) \<le> requestCount (xs ! i) + 1"
  shows "sum_list (map requestCount ys) \<le> sum_list (map requestCount xs) + length xs"
  using assms
proof (induction ys xs rule: list_induct2)
  case Nil
  show ?case by simp
next
  case (Cons y ys x xs)
  have "requestCount y \<le> requestCount x + 1" using Cons.prems by force
  moreover have "\<forall>i<length xs. requestCount (ys ! i) \<le> requestCount (xs ! i) + 1"
    using Cons.prems by force
  ultimately show ?case using Cons.IH by simp
qed

text \<open>The first iteration of a call whose transport returns a promise: the reference it
  picks, the response it obtains and the record it leaves.\<close>

definition firstAttempt :: "config \<Rightarrow> Backend list \<Rightarrow> (nat \<Rightarrow> event) \<Rightarrow> (nat \<times> Response \<times> Backend) option" where
  "firstAttempt cfg tracked env =
     (case chooseBackends tracked [] of
        (None, b) \<Rightarrow> None
      | (Some a, b) \<Rightarrow>
          (let i = pick (env 0) a b; r = attempt cfg (env 0) (tracked ! i)
           in Some (i, fst r, snd r)))"

lemma fetchBalancer_failed_request:
  "toRequest req = Inl e \<Longrightarrow> fetchBalancer cfg tracked req env = (Inl e, tracked)"
  by (simp add: fetchBalancer_def)

lemma fetchBalancer_loop:
  "toRequest req = Inr request \<Longrightarrow>
     fetchBalancer cfg tracked req env = fetchLoop cfg request env 0 [] tracked"
  by (simp add: fetchBalancer_def)

lemma fetchBalancer_empty: "snd (fetchBalancer cfg [] req env) = []"
  by (cases "toRequest req") (simp_all add: fetchBalancer_def fetchLoop_exhausted)

lemma fetchBalancer_first:
  assumes "firstAttempt cfg tracked env = Some (i, resp, b')" "\<not> retries request resp"
    and "toRequest req = Inr request" "\<not> throws (env 0) (proxy (tracked ! i))"
  shows "fetchBalancer cfg tracked req env = (Inr resp, tracked[i := b'])"
proof -
  obtain a b where ch: "chooseBackends tracked [] = (Some a, b)"
    using assms(1) by (auto simp: firstAttempt_def split: prod.splits option.splits)
  then have ne: "length ([]::nat list) < length tracked"
    using chooseBackends_first_untried[OF ch] by auto
  have i: "i = pick (env 0) a b" "resp = fst (attempt cfg (env 0) (tracked ! i))"
    "b' = snd (attempt cfg (env 0) (tracked ! i))"
    using assms(1) ch by (auto simp: firstAttempt_def Let_def)
  have nt: "\<not> throws (env 0) (proxy (tracked ! pick (env 0) a b))" using assms(4) i(1) by simp
  show ?thesis using assms(2) i
    by (simp add: fetchBalancer_loop[OF assms(3)]
        fetchLoop_step[where env=env and k=0, OF ne ch nt] Let_def)
qed

lemma fetchBalancer_first_threw:
  assumes "firstAttempt cfg tracked env = Some (i, resp, b')"
    and "toRequest req = Inr request" "throws (env 0) (proxy (tracked ! i))"
  shows "fetchBalancer cfg tracked req env = (Inl TransportThrew, tracked)"
proof -
  obtain a b where ch: "chooseBackends tracked [] = (Some a, b)"
    using assms(1) by (auto simp: firstAttempt_def split: prod.splits option.splits)
  then have ne: "length ([]::nat list) < length tracked"
    using chooseBackends_first_untried[OF ch] by auto
  have i: "i = pick (env 0) a b"
    using assms(1) ch by (auto simp: firstAttempt_def Let_def)
  have t: "throws (env 0) (proxy (tracked ! pick (env 0) a b))" using assms(3) i by simp
  show ?thesis
    by (simp add: fetchBalancer_loop[OF assms(2)]
        fetchLoop_threw[where env=env and k=0, OF ne ch t])
qed

lemma firstAttempt_some:
  assumes "tracked \<noteq> []"
  shows "\<exists>i resp b'. firstAttempt cfg tracked env = Some (i, resp, b') \<and> i < length tracked"
proof -
  have "length [] < length tracked" using assms by simp
  from chooseBackends_some[OF this] obtain a b where ch: "chooseBackends tracked [] = (Some a, b)"
    by blast
  from pick_untried[OF ch, of "env 0"] show ?thesis
    using ch by (simp add: firstAttempt_def Let_def)
qed

lemma firstAttempt_total:
  assumes "firstAttempt cfg tracked env = Some (i, resp, b')"
  shows "i < length tracked \<and> sum_list (map requestCount (tracked[i := b'])) = sum_list (map requestCount tracked) + 1"
proof -
  obtain a b where ch: "chooseBackends tracked [] = (Some a, b)"
    using assms(1) by (auto simp: firstAttempt_def split: prod.splits option.splits)
  have i: "i = pick (env 0) a b" "b' = snd (attempt cfg (env 0) (tracked ! i))"
    using assms ch by (auto simp: firstAttempt_def Let_def)
  have "i < length tracked" using pick_untried[OF ch, of "env 0"] i by simp
  then show ?thesis using total_after_attempt[of i tracked cfg "env 0"] i by simp
qed

text \<open>Requests for the examples.\<close>

definition postRequest :: RequestInfo where
  "postRequest = Req \<lparr>url = ''http://localhost/'', httpMethod = ''POST''\<rparr>"

definition lowerCaseGet :: Request where
  "lowerCaseGet = \<lparr>url = ''http://localhost/'', httpMethod = ''get''\<rparr>"

definition getRequest :: RequestInfo where
  "getRequest = Url ''http://localhost/''"

definition getRecord :: Request where
  "getRecord = \<lparr>url = ''http://localhost/'', httpMethod = ''GET''\<rparr>"

lemma toRequest_getRequest: "toRequest getRequest = Inr getRecord"
  by (simp add: getRequest_def getRecord_def)

text \<open>
  Claim C6. Only requests whose method is exactly \<open>GET\<close> or \<open>HEAD\<close> are ever retried.
  In every iteration of the loop that attempts a backend (the transport returned a
  promise), when the method is any other string, or when the response of the attempt
  has a status below 500, the loop returns that response at once, with only the
  attempted record changed.
  A call on a pool that is not empty makes a first attempt; when the method is any
  other string, or when the response of that attempt has a status below 500, the call
  returns that response with only the attempted record changed, and the sum of
  \<open>requestCount\<close> over the pool has grown by exactly 1. Conversely a call that adds
  more than 1 to that sum was given a request, and its method is \<open>GET\<close> or \<open>HEAD\<close>.
\<close>

theorem only_get_and_head_retried:
  "(length attempted < length tracked \<and> chooseBackends tracked attempted = (Some a, b)
      \<and> \<not> throws (env k) (proxy (tracked ! pick (env k) a b))
      \<and> ((httpMethod request \<noteq> ''GET'' \<and> httpMethod request \<noteq> ''HEAD'')
           \<or> status (fst (attempt cfg (env k) (tracked ! pick (env k) a b))) < 500)
     \<longrightarrow> fetchLoop cfg request env k attempted tracked
           = (Inr (fst (attempt cfg (env k) (tracked ! pick (env k) a b))),
              tracked[pick (env k) a b := snd (attempt cfg (env k) (tracked ! pick (env k) a b))]))
   \<and> (tracked \<noteq> [] \<and> toRequest req = Inr request \<longrightarrow>
      (\<exists>i resp b'. firstAttempt cfg tracked env = Some (i, resp, b') \<and> i < length tracked
         \<and> (\<not> throws (env 0) (proxy (tracked ! i))
             \<and> ((httpMethod request \<noteq> ''GET'' \<and> httpMethod request \<noteq> ''HEAD'')
                  \<or> status resp < 500)
             \<longrightarrow> fetchBalancer cfg tracked req env = (Inr resp, tracked[i := b'])
               \<and> sum_list (map requestCount (snd (fetchBalancer cfg tracked req env)))
                   = sum_list (map requestCount tracked) + 1)))
   \<and> (sum_list (map requestCount (snd (fetchBalancer cfg tracked req env)))
         > sum_list (map requestCount tracked) + 1
       \<longrightarrow> (\<exists>r. toRequest req = Inr r \<and> (httpMethod r = ''GET'' \<or> httpMethod r = ''HEAD'')))"
proof (intro conjI impI)
  assume a: "length attempted < length tracked \<and> chooseBackends tracked attempted = (Some a, b)
      \<and> \<not> throws (env k) (proxy (tracked ! pick (env k) a b))
      \<and> ((httpMethod request \<noteq> ''GET'' \<and> httpMethod request \<noteq> ''HEAD'')
           \<or> status (fst (attempt cfg (env k) (tracked ! pick (env k) a b))) < 500)"
  then have "\<not> retries request (fst (attempt cfg (env k) (tracked ! pick (env k) a b)))"
    using not_retries_unsafe not_retries_below_500 by blast
  then show "fetchLoop cfg request env k attempted tracked
           = (Inr (fst (attempt cfg (env k) (tracked ! pick (env k) a b))),
              tracked[pick (env k) a b := snd (attempt cfg (env k) (tracked ! pick (env k) a b))])"
    using a by (simp add: fetchLoop_step Let_def)
next
  assume ne: "tracked \<noteq> [] \<and> toRequest req = Inr request"
  then have tr: "toRequest req = Inr request" by simp
  from ne firstAttempt_some[of tracked cfg env] obtain i resp b'
    where fa: "firstAttempt cfg tracked env = Some (i, resp, b')" and i: "i < length tracked" by blast
  have "fetchBalancer cfg tracked req env = (Inr resp, tracked[i := b'])
      \<and> sum_list (map requestCount (snd (fetchBalancer cfg tracked req env)))
          = sum_list (map requestCount tracked) + 1"
    if "\<not> throws (env 0) (proxy (tracked ! i))
        \<and> ((httpMethod request \<noteq> ''GET'' \<and> httpMethod request \<noteq> ''HEAD'') \<or> status resp < 500)"
  proof -
    have nr: "\<not> retries request resp"
      using that not_retries_unsafe not_retries_below_500 by blast
    have nt: "\<not> throws (env 0) (proxy (tracked ! i))" using that by simp
    from fetchBalancer_first[OF fa nr tr nt] firstAttempt_total[OF fa] show ?thesis by simp
  qed
  with fa i show "\<exists>i resp b'. firstAttempt cfg tracked env = Some (i, resp, b') \<and> i < length tracked
         \<and> (\<not> throws (env 0) (proxy (tracked ! i))
             \<and> ((httpMethod request \<noteq> ''GET'' \<and> httpMethod request \<noteq> ''HEAD'')
                  \<or> status resp < 500)
             \<longrightarrow> fetchBalancer cfg tracked req env = (Inr resp, tracked[i := b'])
               \<and> sum_list (map requestCount (snd (fetchBalancer cfg tracked req env)))
                   = sum_list (map requestCount tracked) + 1)"
    by blast
next
  assume more: "sum_list (map requestCount (snd (fetchBalancer cfg tracked req env)))
         > sum_list (map requestCount tracked) + 1"
  show "\<exists>r. toRequest req = Inr r \<and> (httpMethod r = ''GET'' \<or> httpMethod r = ''HEAD'')"
  proof (cases "toRequest req")
    case (Inl e)
    then show ?thesis using more by (simp add: fetchBalancer_failed_request)
  next
    case (Inr r)
    have "httpMethod r = ''GET'' \<or> httpMethod r = ''HEAD''"
    proof (rule ccontr)
      assume "\<not> ?thesis"
      then have unsafe: "httpMethod r \<noteq> ''GET''" "httpMethod r \<noteq> ''HEAD''"
        by simp_all
      show False
      proof (cases "tracked = []")
        case True
        then show False using more by (simp add: fetchBalancer_empty)
      next
        case False
        from firstAttempt_some[OF this, of cfg env] obtain i resp b'
          where fa: "firstAttempt cfg tracked env = Some (i, resp, b')" by blast
        have nr: "\<not> retries r resp" using unsafe by (rule not_retries_unsafe)
        show False
        proof (cases "throws (env 0) (proxy (tracked ! i))")
          case True
          from fetchBalancer_first_threw[OF fa Inr True] more show False by simp
        next
          case nt: False
          from fetchBalancer_first[OF fa nr Inr nt] firstAttempt_total[OF fa] more show False by simp
        qed
      qed
    qed
    with Inr show ?thesis by simp
  qed
qed

text \<open>A request with the method \<open>get\<close> in lower case is answered 500 and not retried;
  the same answers to a \<open>GET\<close> request cost two attempts.\<close>

theorem only_get_and_head_retried_witness:
  "balancer [0, 1] \<noteq> [] \<and> toRequest (Req lowerCaseGet) = Inr lowerCaseGet
   \<and> httpMethod lowerCaseGet \<noteq> ''GET'' \<and> httpMethod lowerCaseGet \<noteq> ''HEAD''
   \<and> chooseBackends (balancer [0, 1]) [] = (Some 0, Some 1)
   \<and> \<not> throws (answers 500 0 5) (proxy (balancer [0, 1] ! 0))
   \<and> fetchLoop sampleConfig lowerCaseGet (\<lambda>k. answers 500 0 5) 0 [] (balancer [0, 1])
       = (Inr \<lparr>status = 500, body = []\<rparr>,
          (balancer [0, 1])[0 := snd (attempt sampleConfig (answers 500 0 5) (balancer [0, 1] ! 0))])
   \<and> fst (fetchBalancer sampleConfig (balancer [0, 1]) (Req lowerCaseGet) (\<lambda>k. answers 500 0 5))
       = Inr \<lparr>status = 500, body = []\<rparr>
   \<and> sum_list (map requestCount
         (snd (fetchBalancer sampleConfig (balancer [0, 1]) (Req lowerCaseGet) (\<lambda>k. answers 500 0 5))))
       = sum_list (map requestCount (balancer [0, 1])) + 1
   \<and> sum_list (map requestCount
         (snd (fetchBalancer sampleConfig (balancer [0, 1]) getRequest (\<lambda>k. answers 500 0 5))))
       > sum_list (map requestCount (balancer [0, 1])) + 1
   \<and> toRequest getRequest = Inr getRecord \<and> httpMethod getRecord = ''GET''"
proof -
  let ?env = "\<lambda>k::nat. answers 500 0 5"
  have ne: "balancer [0, 1] \<noteq> []" by (simp add: balancer_def)
  have tr: "toRequest (Req lowerCaseGet) = Inr lowerCaseGet" by simp
  have m: "httpMethod lowerCaseGet \<noteq> ''GET''" "httpMethod lowerCaseGet \<noteq> ''HEAD''"
    by (simp_all add: lowerCaseGet_def)
  have ch: "chooseBackends (balancer [0, 1]) [] = (Some 0, Some 1)" by code_simp
  have l: "length ([]::nat list) < length (balancer [0, 1])" by (simp add: balancer_def)
  have p: "pick (answers 500 0 5) 0 (Some 1) = 0" by (simp add: pick_def answers_def)
  have nt: "\<And>p. \<not> throws (answers 500 0 5) p" by (simp add: answers_def)
  have f: "fst (attempt sampleConfig (answers 500 0 5) (balancer [0, 1] ! 0)) = \<lparr>status = 500, body = []\<rparr>"
    by (simp add: attempt_response awaitResponse_def answers_def)
  note t = only_get_and_head_retried[of "[]" "balancer [0, 1]" 0 "Some 1" ?env 0 lowerCaseGet sampleConfig
      "Req lowerCaseGet"]
  from t l ch m nt
  have "fetchLoop sampleConfig lowerCaseGet ?env 0 [] (balancer [0, 1])
       = (Inr (fst (attempt sampleConfig (answers 500 0 5)
                (balancer [0, 1] ! pick (answers 500 0 5) 0 (Some 1)))),
          (balancer [0, 1])[pick (answers 500 0 5) 0 (Some 1)
             := snd (attempt sampleConfig (answers 500 0 5)
                      (balancer [0, 1] ! pick (answers 500 0 5) 0 (Some 1)))])"
    by blast
  then have loop: "fetchLoop sampleConfig lowerCaseGet ?env 0 [] (balancer [0, 1])
       = (Inr \<lparr>status = 500, body = []\<rparr>,
          (balancer [0, 1])[0 := snd (attempt sampleConfig (answers 500 0 5) (balancer [0, 1] ! 0))])"
    by (simp only: p f)
  from t ne tr m nt
  have one: "sum_list (map requestCount
         (snd (fetchBalancer sampleConfig (balancer [0, 1]) (Req lowerCaseGet) ?env)))
       = sum_list (map requestCount (balancer [0, 1])) + 1"
    by blast
  have r: "fst (fetchBalancer sampleConfig (balancer [0, 1]) (Req lowerCaseGet) ?env)
      = Inr \<lparr>status = 500, body = []\<rparr>"
    using loop by (simp add: fetchBalancer_def)
  have two: "sum_list (map requestCount (snd (fetchBalancer sampleConfig (balancer [0, 1]) getRequest ?env)))
       > sum_list (map requestCount (balancer [0, 1])) + 1"
    by code_simp
  from only_get_and_head_retried[of "[]" "balancer [0, 1]" 0 "Some 1" ?env 0 lowerCaseGet sampleConfig
      getRequest] two
  have "\<exists>r. toRequest getRequest = Inr r \<and> (httpMethod r = ''GET'' \<or> httpMethod r = ''HEAD'')"
    by blast
  then have g: "httpMethod getRecord = ''GET'' \<or> httpMethod getRecord = ''HEAD''"
    by (simp add: toRequest_getRequest)
  have "httpMethod getRecord \<noteq> ''HEAD''" by (simp add: getRecord_def)
  with g have "httpMethod getRecord = ''GET''" by simp
  with ne tr m ch nt loop one r two toRequest_getRequest show ?thesis by simp
qed

section \<open>The loop is bounded by the pool\<close>

lemma fetchBalancer_records:
  assumes "i < length tracked"
  shows "snd (fetchBalancer cfg tracked req env) ! i = tracked ! i
       \<or> (\<exists>j. snd (fetchBalancer cfg tracked req env) ! i = snd (attempt cfg (env j) (tracked ! i)))"
proof (cases "toRequest req")
  case (Inl e)
  then show ?thesis by (simp add: fetchBalancer_def)
next
  case (Inr request)
  then show ?thesis
    using fetchLoop_records[of cfg request env 0 "[]" tracked] assms
    by (auto simp: fetchBalancer_def)
qed

lemma length_fetchBalancer: "length (snd (fetchBalancer cfg tracked req env)) = length tracked"
proof (cases "toRequest req")
  case (Inl e)
  then show ?thesis by (simp add: fetchBalancer_def)
next
  case (Inr request)
  then show ?thesis
    using fetchLoop_records[of cfg request env 0 "[]" tracked] by (simp add: fetchBalancer_def)
qed

lemma fetchBalancer_once:
  assumes "i < length tracked"
  shows "requestCount (snd (fetchBalancer cfg tracked req env) ! i) = requestCount (tracked ! i)
       \<or> requestCount (snd (fetchBalancer cfg tracked req env) ! i) = requestCount (tracked ! i) + 1"
  using fetchBalancer_records[OF assms, of cfg req env]
  by (auto simp: attempt_requestCount)

text \<open>
  Claim C9 as stated: for every request, when all backends have been attempted without
  a result that is not 5xx, the call returns the generic 502 response. A \<open>POST\<close>
  request to a pool of one backend that answers 500: the only backend has been attempted,
  its answer is 5xx, and the call returns that answer, status 500, as lines 104 to 107
  do for a request that cannot be retried.
\<close>

theorem pool_exhaustion_post_counterexample:
  "serverError (settle (answers 500 0 5) 0)
   \<and> requestCount (snd (fetchBalancer sampleConfig (balancer [0]) postRequest (\<lambda>k. answers 500 0 5)) ! 0) = 1
   \<and> fst (fetchBalancer sampleConfig (balancer [0]) postRequest (\<lambda>k. answers 500 0 5))
       = Inr \<lparr>status = 500, body = []\<rparr>
   \<and> fst (fetchBalancer sampleConfig (balancer [0]) postRequest (\<lambda>k. answers 500 0 5))
       \<noteq> Inr proxyError"
  by code_simp

text \<open>
  Claim C9, amended. For every request and every pool the loop attempts each backend
  at most once (a call adds 0 or 1 to each \<open>requestCount\<close>, at most the size of the
  pool in total) and returns; for a request that can be retried (\<open>GET\<close> or \<open>HEAD\<close>),
  when all backends have been attempted without a result that is not 5xx (every
  transport returns a promise, and every promise is rejected or resolves with a status
  in [500,600)), every backend is attempted exactly once and the call returns the
  generic response \<open>proxyError\<close>, whose status is 502, and no exception. The function
  \<open>fetchLoop\<close> is total: its termination was shown with the number of untried backends
  as the measure.
\<close>

theorem dispatch_loop_bounded:
  "length (snd (fetchBalancer cfg tracked req env)) = length tracked
   \<and> (\<forall>i<length tracked.
         requestCount (snd (fetchBalancer cfg tracked req env) ! i) = requestCount (tracked ! i)
       \<or> requestCount (snd (fetchBalancer cfg tracked req env) ! i) = requestCount (tracked ! i) + 1)
   \<and> sum_list (map requestCount (snd (fetchBalancer cfg tracked req env)))
       \<le> sum_list (map requestCount tracked) + length tracked
   \<and> ((\<forall>j p. serverError (settle (env j) p)) \<and> (\<forall>j p. \<not> throws (env j) p)
        \<and> toRequest req = Inr request
        \<and> (httpMethod request = ''GET'' \<or> httpMethod request = ''HEAD'')
       \<longrightarrow> fst (fetchBalancer cfg tracked req env) = Inr proxyError
         \<and> (\<forall>i<length tracked.
               requestCount (snd (fetchBalancer cfg tracked req env) ! i) = requestCount (tracked ! i) + 1))
   \<and> status proxyError = 502"
proof (intro conjI impI)
  show len: "length (snd (fetchBalancer cfg tracked req env)) = length tracked"
    by (rule length_fetchBalancer)
  show once: "\<forall>i<length tracked.
         requestCount (snd (fetchBalancer cfg tracked req env) ! i) = requestCount (tracked ! i)
       \<or> requestCount (snd (fetchBalancer cfg tracked req env) ! i) = requestCount (tracked ! i) + 1"
    using fetchBalancer_once by blast
  have "\<forall>i<length tracked. requestCount (snd (fetchBalancer cfg tracked req env) ! i)
          \<le> requestCount (tracked ! i) + 1"
    using fetchBalancer_once[of _ tracked cfg req env] by (metis le_add1 order_refl)
  from total_bounded[OF len this]
  show "sum_list (map requestCount (snd (fetchBalancer cfg tracked req env)))
       \<le> sum_list (map requestCount tracked) + length tracked" .
  show "status proxyError = 502" by (rule status_proxyError)
next
  assume a: "(\<forall>j p. serverError (settle (env j) p)) \<and> (\<forall>j p. \<not> throws (env j) p)
        \<and> toRequest req = Inr request
        \<and> (httpMethod request = ''GET'' \<or> httpMethod request = ''HEAD'')"
  then have tr: "toRequest req = Inr request" by simp
  have ex: "fst (fetchLoop cfg request env 0 [] tracked) = Inr proxyError
   \<and> (\<forall>i<length tracked. i \<notin> set [] \<longrightarrow>
         requestCount (snd (fetchLoop cfg request env 0 [] tracked) ! i) = requestCount (tracked ! i) + 1)"
    using a by (intro fetchLoop_exhausts) simp_all
  from ex show "fst (fetchBalancer cfg tracked req env) = Inr proxyError"
    by (simp add: fetchBalancer_loop[OF tr])
  from ex show "\<forall>i<length tracked.
               requestCount (snd (fetchBalancer cfg tracked req env) ! i) = requestCount (tracked ! i) + 1"
    by (simp add: fetchBalancer_loop[OF tr])
qed

text \<open>Two backends: the first answers 503, the promise of the second is rejected.\<close>

definition failover :: "nat \<Rightarrow> event" where
  "failover k = (if k = 0 then answers 503 0 5 else fails 10)"

theorem dispatch_loop_bounded_witness:
  "(\<forall>j p. serverError (settle (failover j) p)) \<and> (\<forall>j p. \<not> throws (failover j) p)
   \<and> toRequest getRequest = Inr getRecord \<and> httpMethod getRecord = ''GET''
   \<and> fst (fetchBalancer sampleConfig (balancer [0, 1]) getRequest failover) = Inr proxyError
   \<and> map requestCount (snd (fetchBalancer sampleConfig (balancer [0, 1]) getRequest failover)) = [1, 1]"
proof -
  have s: "\<forall>j p. serverError (settle (failover j) p)"
    by (simp add: failover_def answers_def fails_def)
  have n: "\<forall>j p. \<not> throws (failover j) p"
    by (simp add: failover_def answers_def fails_def)
  have g: "httpMethod getRecord = ''GET''" by (simp add: getRecord_def)
  from dispatch_loop_bounded[of sampleConfig "balancer [0, 1]" getRequest failover getRecord]
    s n g toRequest_getRequest
  have r: "fst (fetchBalancer sampleConfig (balancer [0, 1]) getRequest failover) = Inr proxyError"
    by blast
  have c: "map requestCount (snd (fetchBalancer sampleConfig (balancer [0, 1]) getRequest failover)) = [1, 1]"
    by code_simp
  from s n g r c toRequest_getRequest show ?thesis by simp
qed

section \<open>Exceptions that leave the dispatcher\<close>

lemma attempt_Rejects:
  assumes "settle ev (proxy b) = Rejects"
  shows "fst (attempt cfg ev b) = proxyError \<and> Some 502 \<in> set (statuses (snd (attempt cfg ev b)))"
proof -
  have r: "fst (attempt cfg ev b) = proxyError"
    using assms by (simp add: attempt_response awaitResponse_Rejects)
  show ?thesis
  proof (cases "length (statuses b) < 10")
    case True
    then show ?thesis using r by (simp add: attempt_statuses status_proxyError)
  next
    case False
    then have "0 < length (statuses b)" by (cases "statuses b") simp_all
    then have "requestCount b mod length (statuses b) < length (statuses b)"
      by (rule mod_less_divisor)
    then show ?thesis using r False
      by (simp add: attempt_statuses status_proxyError set_update_memI)
  qed
qed

text \<open>What does hold: a call ends with one of the two exceptions, with the generic
  response \<open>proxyError\<close>, or with the response a transport resolved with in this call
  (the branch "No backend available" is never taken); and when the request is accepted
  and every transport returns a promise, it ends with a response.\<close>

lemma fetchBalancer_result:
  "fst (fetchBalancer cfg tracked req env) = Inl RequestTypeError
   \<or> fst (fetchBalancer cfg tracked req env) = Inl TransportThrew
   \<or> fst (fetchBalancer cfg tracked req env) = Inr proxyError
   \<or> (\<exists>j p r. settle (env j) p = Resolves r \<and> fst (fetchBalancer cfg tracked req env) = Inr r)"
proof (cases req)
  case (Url u)
  then show ?thesis
    using fetchLoop_never_none[of cfg "\<lparr>url = u, httpMethod = ''GET''\<rparr>" env 0 "[]" tracked]
    by (simp add: fetchBalancer_def)
next
  case (BadUrl u)
  then show ?thesis by (simp add: fetchBalancer_def)
next
  case (Req r)
  then show ?thesis
    using fetchLoop_never_none[of cfg r env 0 "[]" tracked] by (simp add: fetchBalancer_def)
qed

lemma fetchLoop_responds:
  assumes "\<forall>j p. \<not> throws (env j) p"
  shows "\<exists>r. fst (fetchLoop cfg req env k attempted tracked) = Inr r"
proof (induction k attempted tracked rule: fetchLoop_induct[where req=req and cfg=cfg and env=env])
  case (exhausted k attempted tracked)
  then show ?case by (simp add: fetchLoop_exhausted)
next
  case (none k attempted tracked b)
  then show ?case by (simp add: fetchLoop_none)
next
  case (return k attempted tracked a b)
  then show ?case by (simp add: fetchLoop_step Let_def)
next
  case (again k attempted tracked a b)
  then show ?case by (simp add: fetchLoop_step Let_def)
next
  case (threw k attempted tracked a b)
  then show ?case using assms by blast
qed

text \<open>
  Claim C5 says that for every request and every behaviour of the transports,
  including a transport that throws, the dispatcher never raises past its own boundary
  and every failure path ends in a response with a status. The \<open>try\<close> of lines 85 to
  91 covers the \<open>await\<close> only: a rejected promise becomes \<open>proxyError\<close> there (lemma
  \<open>attempt_Rejects\<close>), but \<open>backend.proxy(req, init)\<close> is called at line 76, before the
  \<open>try\<close>, and \<open>new Request(req)\<close> at line 62. A pool of one transport that throws
  when it is called, and a \<open>GET\<close> request: the call ends with that exception and no
  response, and nothing was counted or recorded. A string that the \<open>Request\<close>
  constructor refuses ends the call in the same way.
\<close>

theorem transport_throw_escapes:
  "throws (throwing 0) (proxy (newBackend 0))
   \<and> fetchBalancer sampleConfig (balancer [0]) getRequest (\<lambda>k. throwing 0)
       = (Inl TransportThrew, balancer [0])
   \<and> fetchBalancer sampleConfig (balancer [0]) (BadUrl ''http://'') (\<lambda>k. answers 200 0 5)
       = (Inl RequestTypeError, balancer [0])"
  by code_simp

section \<open>A backend without two samples keeps its defaults\<close>

lemma writeBuffers_scores:
  "healthScore (writeBuffers b st l) = healthScore b"
  "latencyScore (writeBuffers b st l) = latencyScore b"
  "combinedScore (writeBuffers b st l) = combinedScore b"
  "scoredRequestCount (writeBuffers b st l) = scoredRequestCount b"
  by (simp_all add: writeBuffers_def)

lemma score_scores_unmeasured:
  assumes "measuresTaken (latencies (snd (score cfg b eb clock))) < 2"
  shows "snd (score cfg b eb clock) = b"
  using assms score_measuresTaken[of cfg b eb clock] by (simp add: score_unmeasured)

lemma attempt_unmeasured:
  assumes "measuresTaken (latencies b) < 2"
    and "measuresTaken (latencies (snd (attempt cfg ev b))) < 2"
  shows "healthScore (snd (attempt cfg ev b)) = healthScore b
       \<and> latencyScore (snd (attempt cfg ev b)) = latencyScore b
       \<and> combinedScore (snd (attempt cfg ev b)) = combinedScore b
       \<and> scoredRequestCount (snd (attempt cfg ev b)) = scoredRequestCount b"
proof -
  define counted where "counted = b\<lparr>requestCount := requestCount b + 1\<rparr>"
  define resp where "resp = fst (awaitResponse ev (proxy b))"
  define written where "written = writeBuffers counted (status resp) (snd (awaitResponse ev (proxy b)))"
  have res: "snd (score cfg b None (nowRescore ev)) = b"
    using assms(1) by (simp add: score_unmeasured)
  have w: "healthScore written = healthScore b" "latencyScore written = latencyScore b"
    "combinedScore written = combinedScore b" "scoredRequestCount written = scoredRequestCount b"
    by (simp_all add: written_def writeBuffers_scores counted_def)
  have eq: "snd (attempt cfg ev b) =
      (if status resp \<ge> 500 \<and> status resp < 600
       then snd (score cfg (written\<lparr>lastError := nowError ev\<rparr>) None (nowScore ev))
       else written)"
    by (simp add: attempt_def startAttempt_def finishAttempt_def Let_def res written_def counted_def
        resp_def)
  show ?thesis
  proof (cases "status resp \<ge> 500 \<and> status resp < 600")
    case False
    then have "snd (attempt cfg ev b) = written" using eq by auto
    then show ?thesis using w by simp
  next
    case True
    then have e: "snd (attempt cfg ev b) = snd (score cfg (written\<lparr>lastError := nowError ev\<rparr>) None (nowScore ev))"
      using eq by simp
    with assms(2) have "snd (score cfg (written\<lparr>lastError := nowError ev\<rparr>) None (nowScore ev))
        = written\<lparr>lastError := nowError ev\<rparr>"
      by (intro score_scores_unmeasured) simp
    with e w show ?thesis by simp
  qed
qed

lemma serve_snoc:
  "serve cfg tracked (calls @ [c]) = snd (fetchBalancer cfg (serve cfg tracked calls) (fst c) (snd c))"
  by (simp add: serve_def)

lemma serve_nil: "serve cfg tracked [] = tracked"
  by (simp add: serve_def)

lemma length_serve: "length (serve cfg tracked calls) = length tracked"
  by (induction calls rule: rev_induct) (simp_all add: serve_nil serve_snoc length_fetchBalancer)

lemma serve_unmeasured:
  assumes "i < length hs"
  shows "(\<forall>n\<le>length calls. measuresTaken (latencies (serve cfg (balancer hs) (take n calls) ! i)) < 2)
     \<Longrightarrow> healthScore (serve cfg (balancer hs) calls ! i) = 1
       \<and> latencyScore (serve cfg (balancer hs) calls ! i) = 1
       \<and> combinedScore (serve cfg (balancer hs) calls ! i) = 1
       \<and> scoredRequestCount (serve cfg (balancer hs) calls ! i) = 0"
proof (induction calls rule: rev_induct)
  case Nil
  show ?case using assms by (simp add: serve_nil balancer_def newBackend_def)
next
  case (snoc c calls)
  let ?before = "serve cfg (balancer hs) calls"
  let ?after = "serve cfg (balancer hs) (calls @ [c])"
  have "\<forall>n\<le>length calls. measuresTaken (latencies (serve cfg (balancer hs) (take n calls) ! i)) < 2"
  proof (intro allI impI)
    fix n assume n: "n \<le> length calls"
    then have "take n (calls @ [c]) = take n calls" by simp
    moreover have "n \<le> length (calls @ [c])" using n by simp
    ultimately show "measuresTaken (latencies (serve cfg (balancer hs) (take n calls) ! i)) < 2"
      using snoc.prems by metis
  qed
  from snoc.IH[OF this] have ih: "healthScore (?before ! i) = 1" "latencyScore (?before ! i) = 1"
    "combinedScore (?before ! i) = 1" "scoredRequestCount (?before ! i) = 0" by simp_all
  have m0: "measuresTaken (latencies (?before ! i)) < 2"
    using snoc.prems[rule_format, of "length calls"] by simp
  have m1: "measuresTaken (latencies (?after ! i)) < 2"
    using snoc.prems[rule_format, of "length (calls @ [c])"] by simp
  have i: "i < length ?before" using assms by (simp add: length_serve balancer_def)
  from fetchBalancer_records[OF i, of cfg "fst c" "snd c"]
  consider "?after ! i = ?before ! i"
    | j where "?after ! i = snd (attempt cfg (snd c j) (?before ! i))"
    by (auto simp: serve_snoc)
  then show ?case
  proof cases
    case 1
    then show ?thesis using ih by simp
  next
    case 2
    from attempt_unmeasured[OF m0, of cfg "snd c j"] m1 2 ih show ?thesis by simp
  qed
qed

lemma unmeasured_preferred:
  assumes "combinedScore (backends ! u) = 1" "combinedScore (backends ! v) < 1"
  shows "bestBackend backends u v = u \<and> bestBackend backends v u = u"
  using assms by (simp add: bestBackend_def)

lemma unmeasured_selected:
  assumes "chooseBackends backends attempted = (b1, b2)"
    and "u \<in> untried backends attempted" and "combinedScore (backends ! u) = 1"
    and "r \<in> set_option b1 \<union> set_option b2"
  shows "u \<in> set_option b1 \<union> set_option b2 \<or> combinedScore (backends ! r) \<ge> 1"
proof (cases "u \<in> set_option b1 \<union> set_option b2")
  case True
  then show ?thesis by simp
next
  case False
  have inv: "topTwo backends attempted (length backends) (b1, b2)"
    using topTwo_chooseBackends[of backends attempted] assms(1) by simp
  have "\<not> beats backends u r"
    using inv assms(2,4) False by (auto simp: topTwo_def untried_def split: option.splits)
  then show ?thesis using assms(3) by (auto simp: beats_def)
qed

text \<open>
  Claim C10. A record whose latency buffer holds fewer than two non-zero samples is
  returned by the scorer as it was, with the result (0, 0, 0). A backend of a pool
  made by \<open>balancer\<close> whose buffer held fewer than two such samples after every call so
  far still has its defaults: health score, latency score and combined score 1 and
  \<open>scoredRequestCount\<close> 0, whatever the calls did. Consequently \<open>bestBackend\<close> prefers
  such a backend (combined score 1) to any backend whose combined score is below 1, in
  either argument order, and when the selector leaves an untried backend of combined
  score 1 out, both backends it returns have a combined score of at least 1.
\<close>

theorem unmeasured_backend_keeps_defaults:
  "(measuresTaken (latencies b) < 2 \<longrightarrow> score cfg b errorBasis clock = ((0, 0, 0), b))
   \<and> (i < length hs
        \<and> (\<forall>n\<le>length calls. measuresTaken (latencies (serve cfg (balancer hs) (take n calls) ! i)) < 2)
       \<longrightarrow> healthScore (serve cfg (balancer hs) calls ! i) = 1
         \<and> latencyScore (serve cfg (balancer hs) calls ! i) = 1
         \<and> combinedScore (serve cfg (balancer hs) calls ! i) = 1
         \<and> scoredRequestCount (serve cfg (balancer hs) calls ! i) = 0)
   \<and> (combinedScore (backends ! u) = 1 \<and> combinedScore (backends ! v) < 1
       \<longrightarrow> bestBackend backends u v = u \<and> bestBackend backends v u = u)
   \<and> (chooseBackends backends attempted = (b1, b2) \<and> u \<in> untried backends attempted
        \<and> combinedScore (backends ! u) = 1 \<and> r \<in> set_option b1 \<union> set_option b2
       \<longrightarrow> u \<in> set_option b1 \<union> set_option b2 \<or> combinedScore (backends ! r) \<ge> 1)"
  using score_unmeasured[of b cfg errorBasis clock] serve_unmeasured[of i hs calls cfg]
    unmeasured_preferred[of backends u v] unmeasured_selected[of backends attempted b1 b2 u r]
  by blast

text \<open>One call answered with status 200 after 5 ms leaves one sample and the defaults.\<close>

definition oneCall :: "(RequestInfo \<times> (nat \<Rightarrow> event)) list" where
  "oneCall = [(getRequest, \<lambda>k. answers 200 1000 5)]"

theorem unmeasured_backend_keeps_defaults_witness:
  "measuresTaken (latencies (newBackend 0)) < 2
   \<and> score sampleConfig (newBackend 0) None 0 = ((0, 0, 0), newBackend 0)
   \<and> measuresTaken (latencies (serve sampleConfig (balancer [0]) oneCall ! 0)) = 1
   \<and> requestCount (serve sampleConfig (balancer [0]) oneCall ! 0) = 1
   \<and> healthScore (serve sampleConfig (balancer [0]) oneCall ! 0) = 1
   \<and> latencyScore (serve sampleConfig (balancer [0]) oneCall ! 0) = 1
   \<and> combinedScore (serve sampleConfig (balancer [0]) oneCall ! 0) = 1
   \<and> scoredRequestCount (serve sampleConfig (balancer [0]) oneCall ! 0) = 0
   \<and> combinedScore (samplePool ! 1) = 1 \<and> combinedScore (samplePool ! 0) < 1
   \<and> bestBackend samplePool 1 0 = 1 \<and> bestBackend samplePool 0 1 = 1
   \<and> chooseBackends samplePool [3] = (Some 2, Some 1) \<and> 4 \<in> untried samplePool [3]
   \<and> combinedScore (samplePool ! 4) = 1 \<and> combinedScore (samplePool ! 2) \<ge> 1"
proof -
  have m: "measuresTaken (latencies (newBackend 0)) < 2" by code_simp
  have m0: "measuresTaken (latencies (serve sampleConfig (balancer [0]) (take 0 oneCall) ! 0)) < 2"
    by code_simp
  have m1: "measuresTaken (latencies (serve sampleConfig (balancer [0]) oneCall ! 0)) = 1"
    and rc: "requestCount (serve sampleConfig (balancer [0]) oneCall ! 0) = 1"
    by code_simp+
  have len: "length oneCall = 1" by (simp add: oneCall_def)
  have all: "\<forall>n\<le>length oneCall.
      measuresTaken (latencies (serve sampleConfig (balancer [0]) (take n oneCall) ! 0)) < 2"
  proof (intro allI impI)
    fix n assume "n \<le> length oneCall"
    then consider "n = 0" | "n = 1" using len by fastforce
    then show "measuresTaken (latencies (serve sampleConfig (balancer [0]) (take n oneCall) ! 0)) < 2"
    proof cases
      case 1
      then show ?thesis using m0 by simp
    next
      case 2
      then show ?thesis using m1 len by simp
    qed
  qed
  have s: "combinedScore (samplePool ! 1) = 1" "combinedScore (samplePool ! 0) < 1"
    "combinedScore (samplePool ! 4) = 1"
    by (simp_all add: samplePool_def mkBackend_def)
  have u: "4 \<in> untried samplePool [3]" "(2::nat) \<in> set_option (Some 2) \<union> set_option (Some 1)"
    "(4::nat) \<notin> set_option (Some 2) \<union> set_option (Some 1)"
    by (simp_all add: untried_def samplePool_def)
  note t1 = unmeasured_backend_keeps_defaults[of "newBackend 0" sampleConfig None 0 0 "[0]" oneCall
      samplePool 1 0 "[3]" "Some 2" "Some 1" 2]
  note t2 = unmeasured_backend_keeps_defaults[of "newBackend 0" sampleConfig None 0 0 "[0]" oneCall
      samplePool 4 0 "[3]" "Some 2" "Some 1" 2]
  from t1 m have a: "score sampleConfig (newBackend 0) None 0 = ((0, 0, 0), newBackend 0)" by blast
  from t1 all have b: "healthScore (serve sampleConfig (balancer [0]) oneCall ! 0) = 1
         \<and> latencyScore (serve sampleConfig (balancer [0]) oneCall ! 0) = 1
         \<and> combinedScore (serve sampleConfig (balancer [0]) oneCall ! 0) = 1
         \<and> scoredRequestCount (serve sampleConfig (balancer [0]) oneCall ! 0) = 0"
    by simp
  from t1 s have c: "bestBackend samplePool 1 0 = 1 \<and> bestBackend samplePool 0 1 = 1" by blast
  from t2 samplePool_choice s u have d: "combinedScore (samplePool ! 2) \<ge> 1" by blast
  from m a m1 rc b s c samplePool_choice u d show ?thesis by simp
qed

section \<open>The scorer and the pairing of the two buffers\<close>

text \<open>Two calls: status 200 after 300 ms, then status 500 after 100 ms.\<close>

definition twoCalls :: "(RequestInfo \<times> (nat \<Rightarrow> event)) list" where
  "twoCalls = [(getRequest, \<lambda>k. answers 200 1000 300), (getRequest, \<lambda>k. answers 500 2000 100)]"

text \<open>
  Claim C2 says that every operation keeps index \<open>i\<close> of \<open>statuses\<close> and of
  \<open>latencies\<close> on the same attempt, and that the scorer only writes its results.
  The lengths do stay equal, but \<open>latencies.sort(...)\<close> at line 163 sorts the array of
  the record itself. A pool of one backend answers a first call with status 200 after
  300 ms and a second call with status 500 after 100 ms; the second call scores the
  record. Afterwards index 0 holds the status of the first attempt and the latency of
  the second.
\<close>

theorem scorer_sorts_latencies_in_place:
  "statuses (serve sampleConfig (balancer [0]) twoCalls ! 0) = [Some 200, Some 500] @ replicate 8 None
   \<and> latencies (serve sampleConfig (balancer [0]) twoCalls ! 0) = [Some 100, Some 300] @ replicate 8 None"
  by code_simp

section \<open>The ring buffer of statuses\<close>

text \<open>The attempts the dispatcher makes on one backend, from whichever calls, one event
  each, when they do not overlap: every iteration of the loop applies \<open>attempt\<close> to
  the record it picked and leaves the other records alone (lemma
  \<open>fetchBalancer_records\<close>).\<close>

definition attempts :: "config \<Rightarrow> Backend \<Rightarrow> event list \<Rightarrow> Backend" where
  "attempts cfg backend evs = foldl (\<lambda>b ev. snd (attempt cfg ev b)) backend evs"

text \<open>Attempts of several calls that are in flight at once reach the record as their
  halves, in any order: the half before the \<open>await\<close> of one call, then perhaps that
  of another call, and later the halves after the \<open>await\<close>.\<close>

datatype half = Started event | Finished event

fun halfStep :: "config \<Rightarrow> Backend \<Rightarrow> half \<Rightarrow> Backend" where
  "halfStep cfg backend (Started ev) = startAttempt cfg ev backend"
| "halfStep cfg backend (Finished ev) = snd (finishAttempt cfg ev backend)"

definition interleaved :: "config \<Rightarrow> Backend \<Rightarrow> half list \<Rightarrow> Backend" where
  "interleaved cfg backend hs = foldl (halfStep cfg) backend hs"

text \<open>The status an attempt on transport \<open>h\<close> observes: the status of the response, 502
  when the promise is rejected.\<close>

definition observed :: "nat \<Rightarrow> event \<Rightarrow> int" where
  "observed h ev = status (fst (awaitResponse ev h))"

text \<open>The invariant of the buffer after the attempts \<open>evs\<close>: slot \<open>k mod 10\<close> holds the
  status of attempt \<open>k\<close>, for the last ten attempts.\<close>

definition ring :: "nat \<Rightarrow> event list \<Rightarrow> Backend \<Rightarrow> bool" where
  "ring h evs backend =
     (proxy backend = h \<and> requestCount backend = length evs
      \<and> length (statuses backend) = 10 \<and> length (latencies backend) = 10
      \<and> (\<forall>k<length evs. length evs \<le> k + 10 \<longrightarrow>
            statuses backend ! (k mod 10) = Some (observed h (evs ! k))))"

lemma attempts_nil: "attempts cfg backend [] = backend"
  by (simp add: attempts_def)

lemma attempts_snoc:
  "attempts cfg backend (evs @ [ev]) = snd (attempt cfg ev (attempts cfg backend evs))"
  by (simp add: attempts_def)

lemma attempts_proxy: "proxy (attempts cfg backend evs) = proxy backend"
  by (induction evs rule: rev_induct) (simp_all add: attempts_nil attempts_snoc attempt_proxy)

lemma interleaved_append:
  "interleaved cfg backend (xs @ ys) = interleaved cfg (interleaved cfg backend xs) ys"
  by (simp add: interleaved_def)

lemma attempts_interleaved:
  "attempts cfg backend evs
     = interleaved cfg backend (concat (map (\<lambda>ev. [Started ev, Finished ev]) evs))"
proof (induction evs rule: rev_induct)
  case Nil
  show ?case by (simp add: attempts_def interleaved_def)
next
  case (snoc ev evs)
  then show ?case
    by (simp add: attempts_snoc interleaved_append) (simp add: interleaved_def attempt_def)
qed

lemma halfStep_lengths:
  assumes "length (statuses backend) = 10" "length (latencies backend) = 10"
  shows "length (statuses (halfStep cfg backend x)) = 10
       \<and> length (latencies (halfStep cfg backend x)) = 10"
proof (cases x)
  case (Started ev)
  then show ?thesis using assms
    by (simp add: startAttempt_def Let_def score_frame score_length_latencies)
next
  case (Finished ev)
  then show ?thesis using assms
    by (simp add: finishAttempt_def Let_def score_frame score_length_latencies writeBuffers_def)
qed

lemma interleaved_lengths:
  "length (statuses (interleaved cfg (newBackend h) hs)) = 10
   \<and> length (latencies (interleaved cfg (newBackend h) hs)) = 10"
proof (induction hs rule: rev_induct)
  case Nil
  show ?case by (simp add: interleaved_def newBackend_def)
next
  case (snoc x hs)
  then show ?case
    using halfStep_lengths[of "interleaved cfg (newBackend h) hs" cfg x]
    by (simp add: interleaved_def)
qed

lemma slot_differs:
  assumes "k < n" "n < k + 10"
  shows "k mod 10 \<noteq> n mod (10::nat)"
proof
  assume "k mod 10 = n mod 10"
  then have "n mod 10 = k mod 10" by simp
  then have "10 dvd n - k" using assms(1) by (simp add: mod_eq_dvd_iff_nat)
  moreover have "0 < n - k" using assms(1) by simp
  ultimately have "10 \<le> n - k" by (rule dvd_imp_le)
  then show False using assms(2) by simp
qed

lemma ring_attempt:
  assumes "ring h evs backend"
  shows "ring h (evs @ [ev]) (snd (attempt cfg ev backend))"
proof -
  let ?n = "length evs"
  let ?b = "snd (attempt cfg ev backend)"
  from assms have p: "proxy backend = h" and rc: "requestCount backend = ?n"
    and ls: "length (statuses backend) = 10" and ll: "length (latencies backend) = 10"
    and old: "\<And>k. k < ?n \<Longrightarrow> ?n \<le> k + 10 \<Longrightarrow>
                statuses backend ! (k mod 10) = Some (observed h (evs ! k))"
    by (simp_all add: ring_def)
  have st: "statuses ?b = (statuses backend)[?n mod 10 := Some (observed h ev)]"
    using ls rc p by (simp add: attempt_statuses attempt_response observed_def)
  have "statuses ?b ! (k mod 10) = Some (observed h ((evs @ [ev]) ! k))"
    if "k < length (evs @ [ev])" "length (evs @ [ev]) \<le> k + 10" for k
  proof (cases "k = ?n")
    case True
    then show ?thesis using st ls by simp
  next
    case False
    then have k: "k < ?n" "?n < k + 10" "?n \<le> k + 10" using that by simp_all
    from slot_differs[OF k(1,2)] have "statuses ?b ! (k mod 10) = statuses backend ! (k mod 10)"
      using st by simp
    then show ?thesis using old[OF k(1,3)] k(1) by (simp add: nth_append)
  qed
  then show ?thesis
    using p rc ls ll st
    by (simp add: ring_def attempt_proxy attempt_requestCount attempt_length_latencies)
qed

lemma ring_attempts: "ring h evs (attempts cfg (newBackend h) evs)"
proof (induction evs rule: rev_induct)
  case Nil
  show ?case by (simp add: ring_def attempts_nil newBackend_def)
next
  case (snoc ev evs)
  from ring_attempt[OF this, of ev cfg] show ?case by (simp add: attempts_snoc)
qed

text \<open>A call on a pool of one backend, with a request that is accepted and a transport
  that returns a promise, makes exactly one attempt on it.\<close>

lemma chooseBackends_single: "chooseBackends [b] [] = (Some 0, None)"
  by (simp add: chooseBackends_def chooseStep_def)

lemma fetchBalancer_single:
  assumes "toRequest req = Inr request" "\<not> throws (env 0) (proxy b)"
  shows "snd (fetchBalancer cfg [b] req env) = [snd (attempt cfg (env 0) b)]"
proof -
  have ne: "length ([]::nat list) < length [b]" by simp
  have ex: "\<not> length [0::nat] < length [b']" for b' :: Backend by simp
  have nt: "\<not> throws (env 0) (proxy ([b] ! pick (env 0) 0 None))"
    using assms(2) by (simp add: pick_def)
  show ?thesis
    by (simp add: fetchBalancer_loop[OF assms(1)]
        fetchLoop_step[where env=env and k=0, OF ne chooseBackends_single nt] Let_def pick_def
        fetchLoop_exhausted[OF ex])
qed

definition accepted :: "nat \<Rightarrow> RequestInfo \<times> (nat \<Rightarrow> event) \<Rightarrow> bool" where
  "accepted h call = ((\<exists>r. toRequest (fst call) = Inr r) \<and> \<not> throws (snd call 0) h)"

lemma serve_single:
  assumes "\<forall>call\<in>set calls. accepted (proxy b) call"
  shows "serve cfg [b] calls = [attempts cfg b (map (\<lambda>call. snd call 0) calls)]"
  using assms
proof (induction calls rule: rev_induct)
  case Nil
  show ?case by (simp add: serve_nil attempts_nil)
next
  case (snoc c calls)
  then have ih: "serve cfg [b] calls = [attempts cfg b (map (\<lambda>call. snd call 0) calls)]" by simp
  from snoc.prems obtain r where r: "toRequest (fst c) = Inr r"
    and nt: "\<not> throws (snd c 0) (proxy b)"
    by (auto simp: accepted_def)
  have nt': "\<not> throws (snd c 0) (proxy (attempts cfg b (map (\<lambda>call. snd call 0) calls)))"
    using nt by (simp add: attempts_proxy)
  show ?case
    by (simp add: serve_snoc ih fetchBalancer_single[where env="snd c", OF r nt'] attempts_snoc)
qed

text \<open>Eleven attempts answered with the statuses 200, 201, ..., 210, each within the
  same millisecond, and the eleven calls to a pool of one backend that make them.\<close>

definition elevenEvents :: "event list" where
  "elevenEvents = map (\<lambda>k. answers (200 + int k) (1000 * int k) 0) [0..<11]"

definition elevenCalls :: "(RequestInfo \<times> (nat \<Rightarrow> event)) list" where
  "elevenCalls = map (\<lambda>ev. (getRequest, \<lambda>i. ev)) elevenEvents"

text \<open>
  Claim C4 as stated: after more than 10 attempts the buffers hold the 10 most recent
  observations in arrival order. After the eleven calls the eleventh status has been
  written over the first at index 0, so the array starts with 210 and is not the last
  ten statuses in arrival order, which start with 201.
\<close>

theorem arrival_order_counterexample:
  "map (observed 0) elevenEvents = [200, 201, 202, 203, 204, 205, 206, 207, 208, 209, 210]
   \<and> statuses (serve sampleConfig (balancer [0]) elevenCalls ! 0)
       = map Some [210, 201, 202, 203, 204, 205, 206, 207, 208, 209]
   \<and> statuses (serve sampleConfig (balancer [0]) elevenCalls ! 0)
       \<noteq> map Some (drop 1 (map (observed 0) elevenEvents))"
  by code_simp

text \<open>Attempts that overlap do not keep the last ten statuses either: line 80 counts the
  attempt before the \<open>await\<close>, lines 97 and 98 compute the index from the counter
  after it. Two calls in flight at once on a fresh backend, answered 200 and 201: both
  write index 1, the status 200 is lost and index 0 stays a hole.\<close>

lemma overlapping_attempts_share_a_slot:
  "statuses (interleaved sampleConfig (newBackend 0)
      [Started (answers 200 1000 0), Started (answers 201 1001 0),
       Finished (answers 200 1000 0), Finished (answers 201 1001 0)])
     = [None, Some 201] @ replicate 8 None
   \<and> requestCount (interleaved sampleConfig (newBackend 0)
      [Started (answers 200 1000 0), Started (answers 201 1001 0),
       Finished (answers 200 1000 0), Finished (answers 201 1001 0)]) = 2"
  by code_simp

text \<open>
  Claim C4, amended. After any number of attempts on a backend made by \<open>balancer\<close>,
  overlapping or not, \<open>statuses\<close> and \<open>latencies\<close> have length exactly 10. When the
  attempts do not overlap (the response of each is recorded before the next attempt on
  the backend starts), \<open>requestCount\<close> is the number of attempts; each of the last ten
  attempts \<open>k\<close> (counted from 0) has its status at index \<open>k mod 10\<close> of \<open>statuses\<close>,
  so the buffer holds the 10 most recent statuses, in arrival order when read
  cyclically from the index \<open>requestCount mod 10\<close>, the oldest being overwritten
  first; and a new status is written at the index \<open>requestCount mod 10\<close> for the
  \<open>requestCount\<close> before the attempt, which is \<open>(requestCount - 1) mod 10\<close> for the
  incremented counter that the code uses. Attempts that do not overlap are the
  interleaving in which every first half is followed by its second half, and calls to
  a pool of one backend, made one after the other with requests that are accepted and
  a transport that returns its promise, are such a sequence of attempts. What
  \<open>latencies\<close> holds is not part of the statement.
\<close>

theorem ring_buffer_of_statuses:
  "length (statuses (interleaved cfg (newBackend h) hs)) = 10
   \<and> length (latencies (interleaved cfg (newBackend h) hs)) = 10
   \<and> attempts cfg (newBackend h) evs
       = interleaved cfg (newBackend h) (concat (map (\<lambda>ev. [Started ev, Finished ev]) evs))
   \<and> length (statuses (attempts cfg (newBackend h) evs)) = 10
   \<and> length (latencies (attempts cfg (newBackend h) evs)) = 10
   \<and> requestCount (attempts cfg (newBackend h) evs) = length evs
   \<and> (\<forall>k<length evs. length evs \<le> k + 10 \<longrightarrow>
         statuses (attempts cfg (newBackend h) evs) ! (k mod 10) = Some (observed h (evs ! k)))
   \<and> statuses (attempts cfg (newBackend h) (evs @ [ev]))
       = (statuses (attempts cfg (newBackend h) evs))
           [requestCount (attempts cfg (newBackend h) evs) mod 10 := Some (observed h ev)]
   \<and> ((\<forall>call\<in>set calls. accepted h call)
       \<longrightarrow> serve cfg (balancer [h]) calls
             = [attempts cfg (newBackend h) (map (\<lambda>call. snd call 0) calls)])"
proof -
  have r: "ring h evs (attempts cfg (newBackend h) evs)" by (rule ring_attempts)
  have w: "statuses (snd (attempt cfg ev (attempts cfg (newBackend h) evs)))
      = (statuses (attempts cfg (newBackend h) evs))
           [requestCount (attempts cfg (newBackend h) evs) mod 10 := Some (observed h ev)]"
    using r by (simp add: ring_def attempt_statuses attempt_response observed_def)
  have s: "serve cfg (balancer [h]) calls
             = [attempts cfg (newBackend h) (map (\<lambda>call. snd call 0) calls)]"
    if "\<forall>call\<in>set calls. accepted h call"
  proof -
    have "\<forall>call\<in>set calls. accepted (proxy (newBackend h)) call"
      using that by (simp add: newBackend_def)
    from serve_single[OF this, of cfg] show ?thesis by (simp add: balancer_def)
  qed
  show ?thesis
    using r w s interleaved_lengths[of cfg h hs] attempts_interleaved[of cfg "newBackend h" evs]
    by (simp add: ring_def attempts_snoc)
qed

text \<open>The eleven attempts again: the last one, attempt 10, is found at index 0.\<close>

theorem ring_buffer_of_statuses_witness:
  "(10::nat) < length elevenEvents \<and> length elevenEvents \<le> 10 + 10
   \<and> list_all (accepted 0) elevenCalls
   \<and> statuses (attempts sampleConfig (newBackend 0) elevenEvents) ! (10 mod 10) = Some 210
   \<and> length (statuses (attempts sampleConfig (newBackend 0) elevenEvents)) = 10
   \<and> length (latencies (attempts sampleConfig (newBackend 0) elevenEvents)) = 10
   \<and> requestCount (attempts sampleConfig (newBackend 0) elevenEvents) = 11
   \<and> serve sampleConfig (balancer [0]) elevenCalls = [attempts sampleConfig (newBackend 0) elevenEvents]"
proof -
  have len: "length elevenEvents = 11" by (simp add: elevenEvents_def)
  have obs: "observed 0 (elevenEvents ! 10) = 210" by code_simp
  have m: "map (\<lambda>call. snd call 0) elevenCalls = elevenEvents"
    by (simp add: elevenCalls_def comp_def)
  have acc: "\<forall>call\<in>set elevenCalls. accepted 0 call"
    by (auto simp: elevenCalls_def elevenEvents_def accepted_def getRequest_def answers_def)
  note t = ring_buffer_of_statuses[of sampleConfig 0 "[]" elevenEvents "fails 0" elevenCalls]
  from t have "\<forall>k<length elevenEvents. length elevenEvents \<le> k + 10 \<longrightarrow>
      statuses (attempts sampleConfig (newBackend 0) elevenEvents) ! (k mod 10)
        = Some (observed 0 (elevenEvents ! k))"
    by blast
  from this[rule_format, of 10] len
  have "statuses (attempts sampleConfig (newBackend 0) elevenEvents) ! (10 mod 10)
      = Some (observed 0 (elevenEvents ! 10))"
    by simp
  with obs have slot: "statuses (attempts sampleConfig (newBackend 0) elevenEvents) ! (10 mod 10) = Some 210"
    by simp
  from t acc have sv: "serve sampleConfig (balancer [0]) elevenCalls
      = [attempts sampleConfig (newBackend 0) (map (\<lambda>call. snd call 0) elevenCalls)]"
    by blast
  from t have lens: "length (statuses (attempts sampleConfig (newBackend 0) elevenEvents)) = 10"
    "length (latencies (attempts sampleConfig (newBackend 0) elevenEvents)) = 10"
    "requestCount (attempts sampleConfig (newBackend 0) elevenEvents) = length elevenEvents"
    by blast+
  from len acc slot lens sv m show ?thesis by (simp add: list_all_iff)
qed

end
